theory Spec2Isabelle
  imports Main "HOL-Library.Word"
begin

section \<open>Bytes, constants and structures of filterfasta\<close>

text \<open>
  The program works on raw bytes of the memory-mapped query file. A byte is a \<open>char\<close>;
  the bytes the scanner tests for are named here. \<open>eofc\<close> is the byte the C test
  \<^verbatim>\<open>(int)(*c) == EOF\<close> recognises (a signed char of value -1).
\<close>

abbreviation nl :: char where "nl \<equiv> CHR 0x0A"
abbreviation soh :: char where "soh \<equiv> CHR 0x01"
abbreviation gt :: char where "gt \<equiv> CHR ''>''"
abbreviation bar :: char where "bar \<equiv> CHR ''|''"
abbreviation eofc :: char where "eofc \<equiv> CHR 0xFF"

definition INT_MAX :: int where "INT_MAX = 2147483647"
definition INT_MIN :: int where "INT_MIN = - 2147483648"
definition LLONG_MAX :: int where "LLONG_MAX = 9223372036854775807"
definition MAXARG_CNT :: nat where "MAXARG_CNT = 5"
definition FILE_LEN :: nat where "FILE_LEN = 128"
definition ERROR :: int where "ERROR = - 1"
definition CFGERROR :: int where "CFGERROR = - 2"

text \<open>
  \<^verbatim>\<open>args_t\<close>: the command line arguments. \<open>rseqLen\<close> keeps the C layout: the range
  \<open>i\<close> is \<open>rseqLen ! (2 * i)\<close> to \<open>rseqLen ! (2 * i + 1)\<close>. The output file name is
  \<open>outf\<close> (the C field is called \<^verbatim>\<open>of\<close>).
\<close>

record args_t =
  qf :: string
  outf :: string
  sf :: string
  btable :: string
  rseqLen :: "int list"
  seqLen :: "int list"
  seqCnt :: int
  bytesLimit :: int
  seqLenBuf :: nat
  rseqLenBuf :: nat
  annotCnt :: int
  pipeMode :: int
  searchMode :: int

text \<open>
  \<^verbatim>\<open>hits_t\<close>: \<open>hitList\<close> holds the \<^verbatim>\<open>htotal\<close> hit IDs that were loaded (C strings, so
  without a NUL byte), in insertion order. The characteristic vector \<^verbatim>\<open>charVect\<close> is
  mutable during the scan and lives in the scan state below.
\<close>

record hits_t =
  hitList :: "string list"
  hPipeMode :: int
  hSearchMode :: int

definition htotal :: "hits_t \<Rightarrow> nat" where
  "htotal h = length (hitList h)"

text \<open>
  The test \<^verbatim>\<open>hits->pipeMode != 0 || hits->searchMode != 0\<close>: the run looks hit IDs up,
  in pipeline mode or in search mode.
\<close>

definition lookup_mode :: "hits_t \<Rightarrow> bool" where
  "lookup_mode h = (hPipeMode h \<noteq> 0 \<or> hSearchMode h \<noteq> 0)"

text \<open>
  The state the functions of the scan read and write. The pointers of \<^verbatim>\<open>query_t\<close>
  (\<open>iaq\<close>, \<open>faq\<close>, \<open>isq\<close>, \<open>fsq\<close>) are indices into \<open>mem\<close>, the bytes of the region
  being scanned starting at the pointer the caller hands over: the mapped window from
  \<^verbatim>\<open>iomap->iMap\<close> to the last mapped byte, or the carry buffer \<^verbatim>\<open>query->buf\<close>.
  \<open>fptr\<close> is the index of the terminal pointer of that region (\<^verbatim>\<open>iomap->fMap\<close> for a
  window, \<^verbatim>\<open>query->fbuf\<close> for the buffer): the C tests
  \<^verbatim>\<open>p == iomap->fMap || p == query->fbuf\<close> compare with both, and only the pointer of
  the region that \<open>p\<close> walks can be equal. \<open>out\<close> is what has been written to
  \<^verbatim>\<open>iomap->ofd\<close>; \<open>doneFlag\<close> is \<^verbatim>\<open>*done\<close>. The counters \<open>xCnt\<close> and \<open>bytesWritten\<close>
  and the sizes computed from the pointers are \<^verbatim>\<open>long long\<close> in C; they count records and
  bytes of the file, stay far from the bounds of that type, and are integers here.
\<close>

record scan_t =
  mem :: "char list"
  fptr :: nat
  iaq :: nat
  faq :: nat
  isq :: nat
  fsq :: nat
  xCnt :: int
  bytesWritten :: int
  doneFlag :: bool
  out :: "char list"
  charVect :: "int list"

datatype 'a loop = Continue 'a | Break 'a

section \<open>Parsing one record: getAnnot, getSequence, parseAnnot\<close>

text \<open>
  The first loop of \<^verbatim>\<open>getAnnot\<close>: from \<open>p\<close>, find the next \<open>>\<close>; reaching the
  terminal pointer is ERROR (\<open>None\<close>). The test \<open>length m \<le> p\<close> stands for a read past
  the mapped bytes, which the callers never ask for (they pass \<open>fptr < length m\<close>).
\<close>

function getAnnot_start :: "char list \<Rightarrow> nat \<Rightarrow> nat \<Rightarrow> nat option" where
  "getAnnot_start m f p =
     (if p = f \<or> length m \<le> p then None
      else if m ! p = gt then Some p
      else getAnnot_start m f (Suc p))"
  by pat_completeness auto
termination
  by (relation "measure (\<lambda>(m, f, p). length m - p)") auto

declare getAnnot_start.simps [simp del]

text \<open>The second loop of \<^verbatim>\<open>getAnnot\<close>: find the newline that ends the annotations.\<close>

function getAnnot_end :: "char list \<Rightarrow> nat \<Rightarrow> nat \<Rightarrow> nat option" where
  "getAnnot_end m f p =
     (if p = f \<or> length m \<le> p then None
      else if m ! p = nl then Some p
      else getAnnot_end m f (Suc p))"
  by pat_completeness auto
termination
  by (relation "measure (\<lambda>(m, f, p). length m - p)") auto

declare getAnnot_end.simps [simp del]

text \<open>\<^verbatim>\<open>getAnnot\<close> starts at \<^verbatim>\<open>query->fsq\<close> and returns \<open>(iaq, faq)\<close>.\<close>

definition getAnnot :: "char list \<Rightarrow> nat \<Rightarrow> nat \<Rightarrow> (nat \<times> nat) option" where
  "getAnnot m f p0 =
     (case getAnnot_start m f p0 of
        None \<Rightarrow> None
      | Some i \<Rightarrow>
          (case getAnnot_end m f (Suc i) of
             None \<Rightarrow> None
           | Some e \<Rightarrow> Some (i, e)))"

text \<open>
  The loop of \<^verbatim>\<open>getSequence\<close>: returns \<open>(fsq, seqSz)\<close>. A newline is skipped without
  being counted, a \<open>>\<close> ends the sequence at the byte before it, and the terminal
  pointer ends it at the terminal pointer, whose byte is not looked at.
\<close>

function getSequence_loop :: "char list \<Rightarrow> nat \<Rightarrow> nat \<Rightarrow> int \<Rightarrow> nat \<times> int" where
  "getSequence_loop m f p n =
     (if p = f \<or> length m \<le> p then (p, n)
      else if m ! p = nl then getSequence_loop m f (Suc p) n
      else if m ! p = gt then (p - 1, n)
      else getSequence_loop m f (Suc p) (n + 1))"
  by pat_completeness auto
termination
  by (relation "measure (\<lambda>(m, f, p, n). length m - p)") auto

declare getSequence_loop.simps [simp del]

text \<open>
  \<^verbatim>\<open>getSequence\<close>: the sequence starts after the newline of the annotations;
  \<open>None\<close> is the ERROR of a record with no sequence data. The result is
  \<open>(isq, fsq, seqSz)\<close>.
\<close>

definition getSequence :: "char list \<Rightarrow> nat \<Rightarrow> nat \<Rightarrow> (nat \<times> nat \<times> int) option" where
  "getSequence m f e =
     (case getSequence_loop m f (Suc e) 0 of
        (q, n) \<Rightarrow> if n = 0 then None else Some (Suc e, q, n))"

text \<open>
  \<^verbatim>\<open>parseAnnot\<close>: walk the annotations from \<open>iaq\<close>; each \<open>|\<close> or SOH ends a field.
  When the requested number of fields is found the size is the distance walked;
  at the end of the annotations the size handed in (which counts the newline) is
  reduced by one.
\<close>

function parseAnnot_loop :: "char list \<Rightarrow> nat \<Rightarrow> nat \<Rightarrow> nat \<Rightarrow> int \<Rightarrow> int \<Rightarrow> int" where
  "parseAnnot_loop m i e p cnt annotSz =
     (if p = e \<or> length m \<le> p then annotSz - 1
      else if m ! p = bar \<or> m ! p = soh then
        (if cnt - 1 = 0 then int p - int i
         else parseAnnot_loop m i e (Suc p) (cnt - 1) annotSz)
      else parseAnnot_loop m i e (Suc p) cnt annotSz)"
  by pat_completeness auto
termination
  by (relation "measure (\<lambda>(m, i, e, p, cnt, annotSz). length m - p)") auto

declare parseAnnot_loop.simps [simp del]

definition parseAnnot :: "int \<Rightarrow> int \<Rightarrow> char list \<Rightarrow> nat \<Rightarrow> nat \<Rightarrow> int" where
  "parseAnnot cnt annotSz m i e = parseAnnot_loop m i e i cnt annotSz"

section \<open>Selecting and writing records: extractQueries\<close>

text \<open>
  \<^verbatim>\<open>strncmp(hits->hitList[i], p, hlen) == 0\<close> with \<^verbatim>\<open>hlen = strlen(hits->hitList[i])\<close>:
  the \<open>hlen\<close> bytes at \<open>p\<close> are the hit ID. Bytes past the mapped region never match.
\<close>

definition strncmp_hit :: "string \<Rightarrow> char list \<Rightarrow> nat \<Rightarrow> bool" where
  "strncmp_hit h m p = (take (length h) (drop p m) = h)"

text \<open>
  The inner \<^verbatim>\<open>while( paq != query->faq )\<close> loop of the lookup: advance, and at an SOH
  byte compare the hit ID with the bytes after it. The result is the index of the SOH
  of the first alternative annotation that matches.
\<close>

function alt_loop :: "char list \<Rightarrow> nat \<Rightarrow> string \<Rightarrow> nat \<Rightarrow> nat option" where
  "alt_loop m e h paq =
     (if paq = e \<or> length m \<le> Suc paq then None
      else if m ! Suc paq = soh \<and> strncmp_hit h m (Suc (Suc paq)) then Some (Suc paq)
      else alt_loop m e h (Suc paq))"
  by pat_completeness auto
termination
  by (relation "measure (\<lambda>(m, e, h, paq). length m - paq)") auto

declare alt_loop.simps [simp del]

text \<open>
  The \<^verbatim>\<open>for(i = 0LL; i < hits->htotal && seqSelect == 0; i++)\<close> loop. The result is
  \<open>(seqSelect, mem, iaq, charVect)\<close>: a match on an alternative annotation overwrites
  its SOH with \<open>>\<close> and moves \<open>iaq\<close> there when \<open>annotCnt \<noteq> 0\<close>.
\<close>

function hits_loop ::
  "int \<Rightarrow> string list \<Rightarrow> nat \<Rightarrow> char list \<Rightarrow> nat \<Rightarrow> nat \<Rightarrow> int list
     \<Rightarrow> bool \<times> char list \<times> nat \<times> int list" where
  "hits_loop ac hl i m ia e cv =
     (if i < length hl then
        (if strncmp_hit (hl ! i) m (Suc ia) then (True, m, ia, cv[i := 1])
         else
           (case alt_loop m e (hl ! i) ia of
              Some paq \<Rightarrow>
                (if ac \<noteq> 0 then (True, m[paq := gt], paq, cv[i := 1])
                 else (True, m, ia, cv[i := 1]))
            | None \<Rightarrow> hits_loop ac hl (Suc i) m ia e cv))
      else (False, m, ia, cv))"
  by pat_completeness auto
termination
  by (relation "measure (\<lambda>(ac, hl, i, m, ia, e, cv). length hl - i)") auto

declare hits_loop.simps [simp del]

text \<open>
  The two loops of the normal filtering,
  \<^verbatim>\<open>for(i = 0LL; (i < args->seqLenBuf) && (args->seqLen[i] == seqSz); i++)\<close> and
  \<^verbatim>\<open>for(i = 0LL; (i < args->rseqLenBuf) && (args->rseqLen[i*2] <= seqSz) && (args->rseqLen[(i*2)+1] >= seqSz); i++)\<close>,
  started at \<open>i\<close>. The body of each is \<^verbatim>\<open>seqSelect = 1; break;\<close>, so the loop either
  runs its body once or leaves at once, and \<^verbatim>\<open>i++\<close> is never reached.
\<close>

definition seqLen_loop :: "args_t \<Rightarrow> int \<Rightarrow> nat \<Rightarrow> bool" where
  "seqLen_loop a seqSz i = (i < seqLenBuf a \<and> seqLen a ! i = seqSz)"

definition rseqLen_loop :: "args_t \<Rightarrow> int \<Rightarrow> nat \<Rightarrow> bool" where
  "rseqLen_loop a seqSz i =
     (i < rseqLenBuf a \<and> rseqLen a ! (i * 2) \<le> seqSz \<and> rseqLen a ! (i * 2 + 1) \<ge> seqSz)"

definition normal_select :: "args_t \<Rightarrow> int \<Rightarrow> bool" where
  "normal_select a seqSz =
     (if seqLenBuf a = 0 \<and> rseqLenBuf a = 0 then True
      else (seqLenBuf a > 0 \<and> seqLen_loop a seqSz 0) \<or> (rseqLenBuf a > 0 \<and> rseqLen_loop a seqSz 0))"

text \<open>
  \<^verbatim>\<open>fwrite(p, sizeof(char), n, iomap->ofd)\<close> followed by
  \<^verbatim>\<open>*bytesWritten = *bytesWritten + lerr\<close>, for a writer that writes all it is given:
  exactly \<open>n\<close> bytes are written, whatever the record that \<open>p\<close> points into. \<open>bs\<close> is
  the memory from \<open>p\<close> on. When \<open>n\<close> reaches past the end of \<open>bs\<close>, the bytes read are
  the NUL bytes that follow the end of the file in its last page; past that page, and
  past a carry buffer on the heap, the C code reads bytes that the program does not
  determine, and the model writes NUL bytes for them as well. The code never asks
  for a negative \<open>n\<close>.
\<close>

definition fwrite :: "char list \<Rightarrow> int \<Rightarrow> scan_t \<Rightarrow> scan_t" where
  "fwrite bs n s =
     (let w = take (nat n) (bs @ replicate (nat n) (CHR 0x00))
      in s\<lparr>out := out s @ w, bytesWritten := bytesWritten s + int (length w)\<rparr>)"

text \<open>
  The part of the loop body under \<^verbatim>\<open>if( seqSelect == 1 )\<close>: the number of bytes
  \<open>wCnt\<close> is computed, compared with the limit, and only then the record is written
  and counted.
\<close>

definition write_selected :: "args_t \<Rightarrow> int \<Rightarrow> int \<Rightarrow> scan_t \<Rightarrow> scan_t loop" where
  "write_selected a annotSz rawSeqSz s =
     (if annotCnt a = INT_MAX \<or> annotCnt a = INT_MIN + 1 then
        (let wCnt = (if annotCnt a = INT_MAX then annotSz + rawSeqSz else annotSz)
         in if wCnt + bytesWritten s > bytesLimit a then Break (s\<lparr>doneFlag := True\<rparr>)
            else Continue ((fwrite (drop (iaq s) (mem s)) wCnt s)\<lparr>xCnt := xCnt s + 1\<rparr>))
      else if annotCnt a \<noteq> 0 then
        (let annotSz' = parseAnnot (abs (annotCnt a)) annotSz (mem s) (iaq s) (faq s)
         in if annotCnt a > 0 then
              (let wCnt = annotSz' + rawSeqSz + 1
               in if wCnt + bytesWritten s > bytesLimit a then Break (s\<lparr>doneFlag := True\<rparr>)
                  else Continue
                    ((fwrite (drop (isq s) (mem s)) rawSeqSz
                       (fwrite [nl] 1
                         (fwrite (drop (iaq s) (mem s)) annotSz' s)))\<lparr>xCnt := xCnt s + 1\<rparr>))
            else
              (let wCnt = annotSz'
               in if wCnt + bytesWritten s > bytesLimit a then Break (s\<lparr>doneFlag := True\<rparr>)
                  else Continue
                    ((fwrite [nl] 1
                       (fwrite (drop (Suc (iaq s)) (mem s)) (annotSz' - 1) s))\<lparr>xCnt := xCnt s + 1\<rparr>)))
      else
        (let wCnt = rawSeqSz
         in if wCnt + bytesWritten s > bytesLimit a then Break (s\<lparr>doneFlag := True\<rparr>)
            else Continue ((fwrite (drop (isq s) (mem s)) wCnt s)\<lparr>xCnt := xCnt s + 1\<rparr>)))"

text \<open>
  The body of the \<^verbatim>\<open>while( 1 )\<close> loop of \<^verbatim>\<open>extractQueries\<close> from the call of
  \<^verbatim>\<open>getAnnot\<close> on: the next record is parsed, the predicate of the active mode is
  evaluated, and a selected record is written. \<^verbatim>\<open>getAnnot\<close> stores \<^verbatim>\<open>query->iaq\<close> as soon as
  it has found the \<open>>\<close>, also when it then fails to find the newline; \<^verbatim>\<open>getSequence\<close>
  sets \<^verbatim>\<open>isq\<close> and \<^verbatim>\<open>fsq\<close> to \<^verbatim>\<open>faq\<close> when it fails.
\<close>

definition extract_record :: "args_t \<Rightarrow> hits_t \<Rightarrow> scan_t \<Rightarrow> scan_t loop" where
  "extract_record a h s =
     (case getAnnot (mem s) (fptr s) (fsq s) of
        None \<Rightarrow>
          (case getAnnot_start (mem s) (fptr s) (fsq s) of
             None \<Rightarrow> Break s
           | Some i \<Rightarrow> Break (s\<lparr>iaq := i\<rparr>))
      | Some (i, e) \<Rightarrow>
          (let annotSz = int e - int i + 1
           in case getSequence (mem s) (fptr s) e of
                None \<Rightarrow> Break (s\<lparr>iaq := i, faq := e, isq := e, fsq := e\<rparr>)
              | Some (b, q, seqSz) \<Rightarrow>
                  (let rawSeqSz = int q - int b + 1;
                       s1 = s\<lparr>iaq := i, faq := e, isq := b, fsq := q\<rparr>
                   in if lookup_mode h then
                        (case hits_loop (annotCnt a) (hitList h) 0 (mem s1) i e (charVect s1) of
                           (sel, m', i', cv') \<Rightarrow>
                             (let s2 = s1\<lparr>mem := m', iaq := i', charVect := cv'\<rparr>
                              in if sel then write_selected a annotSz rawSeqSz s2
                                 else Continue s2))
                      else if normal_select a seqSz then write_selected a annotSz rawSeqSz s1
                      else Continue s1)))"

text \<open>
  One pass through the whole body of the loop: the two tests of the quota, which
  are made in a run of one process only (\<open>np\<close> is \<^verbatim>\<open>mpi->procCnt\<close>), then the record.
\<close>

definition extract_step :: "args_t \<Rightarrow> hits_t \<Rightarrow> int \<Rightarrow> scan_t \<Rightarrow> scan_t loop" where
  "extract_step a h np s =
     (if np = 1 \<and> xCnt s = seqCnt a then Break (s\<lparr>doneFlag := True\<rparr>)
      else if np = 1 \<and> lookup_mode h \<and> xCnt s = int (htotal h)
        then Break (s\<lparr>doneFlag := True\<rparr>)
      else extract_record a h s)"

text \<open>
  Facts about one pass of the loop that its termination rests on: a pass that
  continues has moved \<open>fsq\<close> forward inside the region.
\<close>

lemma getAnnot_start_Some:
  "getAnnot_start m f p = Some i \<Longrightarrow> p \<le> i \<and> i < length m \<and> m ! i = gt \<and> i \<noteq> f"
proof (induction m f p rule: getAnnot_start.induct)
  case (1 m f p)
  then show ?case
    by (subst (asm) (2) getAnnot_start.simps) (auto split: if_splits)
qed

lemma getAnnot_end_Some:
  "getAnnot_end m f p = Some e \<Longrightarrow> p \<le> e \<and> e < length m \<and> m ! e = nl \<and> e \<noteq> f"
proof (induction m f p rule: getAnnot_end.induct)
  case (1 m f p)
  then show ?case
    by (subst (asm) (2) getAnnot_end.simps) (auto split: if_splits)
qed

lemma getSequence_loop_bounds:
  "getSequence_loop m f p n = (q, k) \<Longrightarrow> n \<le> k \<and> p \<le> Suc q \<and> (n < k \<longrightarrow> p \<le> q)"
proof (induction m f p n rule: getSequence_loop.induct)
  case (1 m f p n)
  then show ?case
    by (subst (asm) (3) getSequence_loop.simps) (auto split: if_splits)
qed

lemma hits_loop_length:
  "hits_loop ac hl i m ia e cv = (sel, m', ia', cv') \<Longrightarrow> length m' = length m \<and> length cv' = length cv"
proof (induction ac hl i m ia e cv rule: hits_loop.induct)
  case (1 ac hl i m ia e cv)
  then show ?case
    by (subst (asm) (2) hits_loop.simps) (auto split: if_splits option.splits)
qed

lemma fwrite_fields [simp]:
  "mem (fwrite bs n s) = mem s" "fsq (fwrite bs n s) = fsq s" "fptr (fwrite bs n s) = fptr s"
  "xCnt (fwrite bs n s) = xCnt s" "doneFlag (fwrite bs n s) = doneFlag s"
  "charVect (fwrite bs n s) = charVect s"
  "iaq (fwrite bs n s) = iaq s" "faq (fwrite bs n s) = faq s" "isq (fwrite bs n s) = isq s"
  by (simp_all add: fwrite_def Let_def)

lemma write_selected_Continue:
  "write_selected a annotSz rawSeqSz s = Continue s' \<Longrightarrow>
     mem s' = mem s \<and> fsq s' = fsq s \<and> fptr s' = fptr s \<and> charVect s' = charVect s \<and> doneFlag s' = doneFlag s"
  by (auto simp: write_selected_def Let_def split: if_splits)

lemma extract_step_Continue:
  assumes "extract_step a h np s = Continue s'"
  shows "fsq s < fsq s' \<and> fsq s < length (mem s) \<and> length (mem s') = length (mem s) \<and> fptr s' = fptr s"
proof -
  from assms obtain i e where ga: "getAnnot (mem s) (fptr s) (fsq s) = Some (i, e)"
    by (auto simp: extract_step_def extract_record_def split: if_splits option.splits)
  then obtain "fsq s \<le> i" "i < length (mem s)" "i < e"
    by (auto simp: getAnnot_def split: option.splits dest!: getAnnot_start_Some getAnnot_end_Some)
  moreover from assms ga obtain b q seqSz where gs: "getSequence (mem s) (fptr s) e = Some (b, q, seqSz)"
    by (auto simp: extract_step_def extract_record_def Let_def split: if_splits option.splits)
  then have "Suc e \<le> q" "b = Suc e"
    by (auto simp: getSequence_def split: prod.splits if_splits dest!: getSequence_loop_bounds)
  moreover from assms ga gs have "fsq s' = q \<and> length (mem s') = length (mem s) \<and> fptr s' = fptr s"
    by (auto simp: extract_step_def extract_record_def Let_def split: if_splits prod.splits
        dest!: write_selected_Continue hits_loop_length)
  ultimately show ?thesis by auto
qed

text \<open>
  \<^verbatim>\<open>extractQueries\<close>: the \<^verbatim>\<open>while( 1 )\<close> loop. The function always returns 0, so the
  model returns the state alone.
\<close>

function extractQueries :: "args_t \<Rightarrow> hits_t \<Rightarrow> int \<Rightarrow> scan_t \<Rightarrow> scan_t" where
  "extractQueries a h np s =
     (case extract_step a h np s of
        Break s' \<Rightarrow> s'
      | Continue s' \<Rightarrow> extractQueries a h np s')"
  by pat_completeness auto
termination
proof (relation "measure (\<lambda>(a, h, np, s). length (mem s) - fsq s)")
  show "wf (measure (\<lambda>(a, h, np, s). length (mem s) - fsq s))"
    by simp
next
  fix a :: args_t and h :: hits_t and np :: int and s s' :: scan_t
  assume "extract_step a h np s = Continue s'"
  from extract_step_Continue [OF this]
  show "((a, h, np, s'), (a, h, np, s)) \<in> measure (\<lambda>(a, h, np, s). length (mem s) - fsq s)"
    by auto
qed

declare extractQueries.simps [simp del]

section \<open>The chunked scanner: adjustMapBegin, adjustMapEnd, partQueryFile\<close>

text \<open>
  What \<^verbatim>\<open>mmap\<close> maps for a request of \<open>len\<close> bytes at the file offset \<open>off\<close> (a multiple
  of the page size \<open>psz\<close>): whole pages. These are the bytes of the file in them. When
  the file ends inside the mapping, the rest of the page in which it ends reads as NUL
  bytes and the pages after it cannot be read; the list ends with the file, and the
  one function that reads past a region, \<open>fwrite\<close>, supplies the NUL bytes.
\<close>

definition mapped_pages :: "char list \<Rightarrow> int \<Rightarrow> int \<Rightarrow> int \<Rightarrow> char list" where
  "mapped_pages file off len psz =
     take (nat (((len + psz - 1) div psz) * psz)) (drop (nat off) file)"

text \<open>
  \<^verbatim>\<open>initQueryMap\<close>: map \<open>msz\<close> bytes (plus the skew of this process) of the query file
  \<open>file\<close> at \<open>offset\<close> (plus the page offset of this process). \<open>fileOffs\<close> is the
  C array with three entries per process. The result is the memory from the moved
  \<^verbatim>\<open>iomap->iMap\<close> to the end of the mapped pages, and the index of \<^verbatim>\<open>iomap->fMap\<close> in it,
  which is the last byte that was asked for. \<^verbatim>\<open>mmap\<close> is taken to fail, as POSIX
  says, for an empty mapping and for a file offset that is not a multiple of the page
  size \<open>psz\<close>.
\<close>

definition initQueryMap ::
  "char list \<Rightarrow> int list \<Rightarrow> nat \<Rightarrow> int \<Rightarrow> int \<Rightarrow> int \<Rightarrow> (char list \<times> nat) option" where
  "initQueryMap file fileOffs rank psz msz offset =
     (let offset' = offset + fileOffs ! (rank * 3);
          msz' = msz + fileOffs ! (rank * 3 + 1)
      in if msz' \<le> 0 \<or> offset' < 0 \<or> offset' mod psz \<noteq> 0 then None
         else
           (let mp = mapped_pages file offset' msz' psz;
                skew = nat (fileOffs ! (rank * 3 + 1))
            in Some (drop skew mp, nat msz' - 1 - skew)))"

text \<open>
  The loop of \<^verbatim>\<open>adjustMapBegin\<close> reads the window in order, up to but not including
  \<^verbatim>\<open>iomap->fMap\<close>: the result is the offset of the first \<open>>\<close>; \<open>None\<close> is ERROR (an
  EOF byte, or no \<open>>\<close> in the window).
\<close>

function adjustMapBegin_loop :: "char list \<Rightarrow> nat \<Rightarrow> nat \<Rightarrow> nat option" where
  "adjustMapBegin_loop m f c =
     (if c = f \<or> length m \<le> c then None
      else if m ! c = eofc then None
      else if m ! c = gt then Some c
      else adjustMapBegin_loop m f (Suc c))"
  by pat_completeness auto
termination
  by (relation "measure (\<lambda>(m, f, c). length m - c)") auto

declare adjustMapBegin_loop.simps [simp del]

text \<open>
  \<^verbatim>\<open>adjustMapBegin\<close>: the bytes before the first \<open>>\<close> of the window belong to the
  record held in the carry buffer and are appended to it; the window then starts at
  that \<open>>\<close>. The result is \<open>(offset, buf, window, fMap)\<close>. The reallocation is taken
  to succeed.
\<close>

definition adjustMapBegin ::
  "char list \<Rightarrow> nat \<Rightarrow> char list \<Rightarrow> (nat \<times> char list \<times> char list \<times> nat) option" where
  "adjustMapBegin m f buf =
     (case adjustMapBegin_loop m f 0 of
        None \<Rightarrow> None
      | Some offset \<Rightarrow>
          if offset > 0 then Some (offset, buf @ take offset m, drop offset m, f - offset)
          else Some (offset, buf, m, f))"

text \<open>
  The loop of \<^verbatim>\<open>adjustMapEnd\<close> reads the window in reverse order from \<^verbatim>\<open>iomap->fMap\<close>,
  down to but not including \<^verbatim>\<open>iomap->iMap\<close> (index 0): the result is the index of the
  last \<open>>\<close>.
\<close>

fun adjustMapEnd_loop :: "char list \<Rightarrow> nat \<Rightarrow> nat option" where
  "adjustMapEnd_loop m 0 = None"
| "adjustMapEnd_loop m (Suc c) =
     (if length m \<le> Suc c then None
      else if m ! Suc c = eofc then None
      else if m ! Suc c = gt then Some (Suc c)
      else adjustMapEnd_loop m c)"

text \<open>
  \<^verbatim>\<open>adjustMapEnd\<close>: the window is cut to end at the byte before its last \<open>>\<close>, and the
  bytes from that \<open>>\<close> to the end of the window are copied to a new carry buffer.
  The result is \<open>(fMap, buf)\<close>.
\<close>

definition adjustMapEnd :: "char list \<Rightarrow> nat \<Rightarrow> (nat \<times> char list) option" where
  "adjustMapEnd m f =
     (case adjustMapEnd_loop m f of
        None \<Rightarrow> None
      | Some c \<Rightarrow> Some (c - 1, take (f - c + 1) (drop c m)))"

text \<open>
  The call \<^verbatim>\<open>extractQueries(args, iomap, &query, hits, mpi, &bytesWritten, &done)\<close> on
  a region, after the four pointers of the query were set to its first byte.
\<close>

definition extract_region ::
  "args_t \<Rightarrow> hits_t \<Rightarrow> int \<Rightarrow> char list \<Rightarrow> nat \<Rightarrow> scan_t \<Rightarrow> scan_t" where
  "extract_region a h np m f s =
     extractQueries a h np (s\<lparr>mem := m, fptr := f, iaq := 0, faq := 0, isq := 0, fsq := 0\<rparr>)"

text \<open>
  The window size \<open>msz\<close> and the number of maps \<open>nmaps\<close> that \<^verbatim>\<open>partQueryFile\<close>
  computes first. \<open>imapLimit\<close> is the macro \<^verbatim>\<open>IMAP_LIMIT\<close>, \<open>psz\<close> the page size of
  the system.
\<close>

definition chunk_size :: "int \<Rightarrow> int \<Rightarrow> int" where
  "chunk_size imapLimit psz =
     (if imapLimit < psz \<or> imapLimit mod psz \<noteq> 0 then psz * 1024 else imapLimit)"

definition ceil_div :: "int \<Rightarrow> int \<Rightarrow> int" where
  "ceil_div x y = - ((- x) div y)"

text \<open>
  The body of the \<^verbatim>\<open>for(nmap = 0; nmap < nmaps && !done; nmap++)\<close> loop of
  \<^verbatim>\<open>partQueryFile\<close>, on the carry buffer and the state of the scan. \<open>Inl s\<close> is a
  \<^verbatim>\<open>break\<close> with \<open>err \<noteq> 0\<close> in the state \<open>s\<close>: when \<^verbatim>\<open>adjustMapEnd\<close> fails, the carry
  buffer has already been scanned and its records written. (The C code then frees
  \<^verbatim>\<open>query.buf\<close> a second time; what that does to the process is outside the model.)
  \<^verbatim>\<open>extractQueries\<close> always returns 0. Note that the window is scanned after the carry
  buffer whatever the scan of the buffer did to \<^verbatim>\<open>done\<close>.
\<close>

definition partQueryFile_body ::
  "args_t \<Rightarrow> hits_t \<Rightarrow> int \<Rightarrow> char list \<Rightarrow> int list \<Rightarrow> nat \<Rightarrow> int \<Rightarrow> int \<Rightarrow> int \<Rightarrow> int \<Rightarrow> int
     \<Rightarrow> char list \<times> scan_t \<Rightarrow> scan_t + char list \<times> scan_t" where
  "partQueryFile_body a h np file fileOffs rank psz qfsz msz nmaps nmap bs =
     (let mrem = nmaps - (nmap + 1);
          offset = nmap * msz;
          msz' = (if mrem = 0 then qfsz - offset else msz)
      in case initQueryMap file fileOffs rank psz msz' offset of
           None \<Rightarrow> Inl (snd bs)
         | Some (m, f) \<Rightarrow>
             (case (if nmap > 0 then
                      (case adjustMapBegin m f (fst bs) of
                         None \<Rightarrow> None
                       | Some (shift, buf', m', f') \<Rightarrow>
                           Some (m', f', extract_region a h np buf' (length buf' - 1) (snd bs)))
                    else Some (m, f, snd bs)) of
                None \<Rightarrow> Inl (snd bs)
              | Some (m1, f1, s1) \<Rightarrow>
                  (if mrem > 0 then
                     (case adjustMapEnd m1 f1 of
                        None \<Rightarrow> Inl s1
                      | Some (f2, buf2) \<Rightarrow> Inr (buf2, extract_region a h np m1 f2 s1))
                   else Inr ([], extract_region a h np m1 f1 s1))))"

function partQueryFile_loop ::
  "args_t \<Rightarrow> hits_t \<Rightarrow> int \<Rightarrow> char list \<Rightarrow> int list \<Rightarrow> nat \<Rightarrow> int \<Rightarrow> int \<Rightarrow> int \<Rightarrow> int \<Rightarrow> int
     \<Rightarrow> char list \<times> scan_t \<Rightarrow> int \<times> scan_t" where
  "partQueryFile_loop a h np file fileOffs rank psz qfsz msz nmaps nmap bs =
     (if nmap < nmaps \<and> \<not> doneFlag (snd bs) then
        (case partQueryFile_body a h np file fileOffs rank psz qfsz msz nmaps nmap bs of
           Inl s \<Rightarrow> (ERROR, s)
         | Inr bs' \<Rightarrow>
             partQueryFile_loop a h np file fileOffs rank psz qfsz msz nmaps (nmap + 1) bs')
      else (0, snd bs))"
  by pat_completeness auto
termination
  by (relation "measure (\<lambda>(a, h, np, file, fileOffs, rank, psz, qfsz, msz, nmaps, nmap, bs).
        nat (nmaps - nmap))") auto

declare partQueryFile_loop.simps [simp del]

text \<open>
  The state \<^verbatim>\<open>partQueryFile\<close> starts from: nothing extracted, nothing written, and the
  characteristic vector as \<^verbatim>\<open>calloc\<close> left it.
\<close>

definition scan_init :: "hits_t \<Rightarrow> scan_t" where
  "scan_init h =
     \<lparr>mem = [], fptr = 0, iaq = 0, faq = 0, isq = 0, fsq = 0, xCnt = 0, bytesWritten = 0,
      doneFlag = False, out = [], charVect = replicate (htotal h) 0\<rparr>"

text \<open>
  \<^verbatim>\<open>partQueryFile\<close> up to the end of its loop: the error code and the final state,
  whose \<open>out\<close> is the content of the output file of this process. \<open>qfsz\<close> is
  \<^verbatim>\<open>iomap->qfsz\<close>, which \<^verbatim>\<open>setOffs\<close> has set to the size of this process' partition.
  Opening the output file is taken to succeed.
\<close>

definition partQueryFile ::
  "int \<Rightarrow> int \<Rightarrow> args_t \<Rightarrow> hits_t \<Rightarrow> int \<Rightarrow> nat \<Rightarrow> char list \<Rightarrow> int list \<Rightarrow> int \<times> scan_t" where
  "partQueryFile imapLimit psz a h np rank file fileOffs =
     (let msz = chunk_size imapLimit psz;
          qfsz = fileOffs ! (rank * 3 + 2);
          nmaps = ceil_div qfsz msz
      in partQueryFile_loop a h np file fileOffs rank psz qfsz msz nmaps 0 ([], scan_init h))"

text \<open>The error code and the content of the output file of a run of \<^verbatim>\<open>partQueryFile\<close>.\<close>

definition partQueryFile_out ::
  "int \<Rightarrow> int \<Rightarrow> args_t \<Rightarrow> hits_t \<Rightarrow> int \<Rightarrow> nat \<Rightarrow> char list \<Rightarrow> int list \<Rightarrow> int \<times> char list" where
  "partQueryFile_out imapLimit psz a h np rank file fileOffs =
     (case partQueryFile imapLimit psz a h np rank file fileOffs of (err, s) \<Rightarrow> (err, out s))"

section \<open>The command line: parseCmdline\<close>

text \<open>
  \<^verbatim>\<open>parseCmdline\<close> reads the options with \<^verbatim>\<open>getopt_long\<close> and converts their
  arguments with \<^verbatim>\<open>strtoll\<close>. The model starts after that conversion: an option is
  its letter with the number or the string that the C code has in hand when it
  validates it. For a range \<^verbatim>\<open>-l a:b\<close> these are \<^verbatim>\<open>startLen\<close> and \<^verbatim>\<open>endLen\<close>, with
  0 and \<^verbatim>\<open>SEQ_COUNT\<close> standing for a bound that is left out; for \<^verbatim>\<open>-b\<close> the number
  and the multiplier of its suffix. \<open>OptBad\<close> is an option that \<^verbatim>\<open>getopt_long\<close> or the
  syntax of its argument rejects. \<^verbatim>\<open>-h\<close> (which exits), \<^verbatim>\<open>-v\<close> and \<^verbatim>\<open>-z\<close> are not
  modelled.
\<close>

datatype opt =
    OptQ string
  | OptO string
  | OptS string
  | OptC int
  | OptLen int
  | OptRange int int
  | OptA int
  | OptB int int
  | OptT string
  | OptP int
  | OptBad

text \<open>The structure after \<^verbatim>\<open>memset\<close> and the defaults \<^verbatim>\<open>parseCmdline\<close> sets first.\<close>

definition args_default :: args_t where
  "args_default =
     \<lparr>qf = [], outf = ''filter.out'', sf = [], btable = [],
      rseqLen = replicate (MAXARG_CNT * 2) 0, seqLen = replicate MAXARG_CNT 0,
      seqCnt = LLONG_MAX, bytesLimit = LLONG_MAX, seqLenBuf = 0, rseqLenBuf = 0,
      annotCnt = INT_MAX, pipeMode = 0, searchMode = 0\<rparr>"

text \<open>
  One case of the \<^verbatim>\<open>switch( opt )\<close>, on the pair of \<^verbatim>\<open>ret\<close> and \<^verbatim>\<open>*args\<close>. A rejected
  option sets \<^verbatim>\<open>ret = ERROR\<close> and the loop goes on with the next option.
  \<^verbatim>\<open>(int)testOpt\<close> keeps the low 32 bits, and the product
  \<^verbatim>\<open>testOpt * multiplier\<close> of two \<^verbatim>\<open>long long\<close> keeps the low 64 bits, so a large \<^verbatim>\<open>-b\<close>
  with a suffix can give a byte limit that is zero or negative.
\<close>

fun parse_opt :: "opt \<Rightarrow> int \<times> args_t \<Rightarrow> int \<times> args_t" where
  "parse_opt (OptQ f) (ret, a) = (ret, a\<lparr>qf := take FILE_LEN f\<rparr>)"
| "parse_opt (OptO f) (ret, a) = (ret, a\<lparr>outf := take FILE_LEN f\<rparr>)"
| "parse_opt (OptS f) (ret, a) = (ret, a\<lparr>sf := take FILE_LEN f, searchMode := 1\<rparr>)"
| "parse_opt (OptC testOpt) (ret, a) =
     (if testOpt < 0 then (ERROR, a) else (ret, a\<lparr>seqCnt := testOpt\<rparr>))"
| "parse_opt (OptRange startLen endLen) (ret, a) =
     (if startLen < 0 \<or> endLen \<le> startLen then (ERROR, a)
      else if rseqLenBuf a < MAXARG_CNT then
        (if list_ex (\<lambda>i. startLen = rseqLen a ! (i * 2) \<and> endLen = rseqLen a ! (i * 2 + 1))
              [0..<rseqLenBuf a]
         then (ret, a)
         else (ret, a\<lparr>rseqLen := (rseqLen a)[rseqLenBuf a * 2 := startLen,
                                               rseqLenBuf a * 2 + 1 := endLen],
                       rseqLenBuf := rseqLenBuf a + 1\<rparr>))
      else (ret, a))"
| "parse_opt (OptLen testOpt) (ret, a) =
     (if testOpt < 0 then (ERROR, a)
      else if seqLenBuf a < MAXARG_CNT then
        (if list_ex (\<lambda>i. testOpt = seqLen a ! i) [0..<seqLenBuf a] then (ret, a)
         else (ret, a\<lparr>seqLen := (seqLen a)[seqLenBuf a := testOpt],
                       seqLenBuf := seqLenBuf a + 1\<rparr>))
      else (ret, a))"
| "parse_opt (OptA testOpt) (ret, a) =
     (if testOpt = INT_MIN then (ERROR, a)
      else (ret, a\<lparr>annotCnt := sint (word_of_int testOpt :: 32 word)\<rparr>))"
| "parse_opt (OptB testOpt multiplier) (ret, a) =
     (if testOpt < 1 then (ERROR, a)
      else (ret, a\<lparr>bytesLimit := sint (word_of_int (testOpt * multiplier) :: 64 word)\<rparr>))"
| "parse_opt (OptT f) (ret, a) = (ret, a\<lparr>btable := take FILE_LEN f\<rparr>)"
| "parse_opt (OptP testOpt) (ret, a) =
     (if testOpt < 0 \<or> testOpt > 2 then (ERROR, a) else (ret, a\<lparr>pipeMode := testOpt\<rparr>))"
| "parse_opt OptBad (ret, a) = (ERROR, a)"

text \<open>
  The checks that follow the option loop, each of which can only set \<^verbatim>\<open>ret = ERROR\<close>:
  pipeline mode together with search mode; a missing query file; the query file being
  the output file or the search file; and, in pipeline mode, a missing BLAST table or
  one that is the query or the output file.
\<close>

definition check_modes :: "args_t \<Rightarrow> int \<Rightarrow> int" where
  "check_modes a ret = (if pipeMode a \<noteq> 0 \<and> searchMode a \<noteq> 0 then ERROR else ret)"

definition check_query :: "args_t \<Rightarrow> int \<Rightarrow> int" where
  "check_query a ret =
     (if length (qf a) = 0 then ERROR
      else
        (let ret1 = (if qf a = outf a then ERROR else ret)
         in if searchMode a \<noteq> 0 \<and> qf a = sf a then ERROR else ret1))"

definition check_pipe :: "args_t \<Rightarrow> int \<Rightarrow> int" where
  "check_pipe a ret =
     (if pipeMode a \<noteq> 0 then
        (if length (btable a) = 0 then ERROR
         else
           (let ret1 = (if btable a = qf a then ERROR else ret)
            in if btable a = outf a then ERROR else ret1))
      else ret)"

text \<open>
  \<^verbatim>\<open>parseCmdline\<close>: the value returned and the arguments. \<^verbatim>\<open>main\<close> ends the run with
  \<^verbatim>\<open>CFGERROR\<close>, before any file is opened, when the value is not 0; otherwise it copies
  the two modes into the hits structure, loads the hit IDs and scans.
\<close>

definition parseCmdline :: "opt list \<Rightarrow> int \<times> args_t" where
  "parseCmdline opts =
     (case fold parse_opt opts (0, args_default) of
        (ret, a) \<Rightarrow> (check_pipe a (check_query a (check_modes a ret)), a))"

definition hits_of :: "args_t \<Rightarrow> string list \<Rightarrow> hits_t" where
  "hits_of a ids = \<lparr>hitList = ids, hPipeMode = pipeMode a, hSearchMode = searchMode a\<rparr>"

section \<open>The partitioner: setOffsQueryFile and setOffs\<close>

text \<open>
  The nominal partition size: \<^verbatim>\<open>ceil((double)fsize / procCnt)\<close> rounded down to a
  multiple of the page size \<^verbatim>\<open>seqChunks\<close>. The C code computes it in double precision;
  the model computes it exactly, which is the same for sizes a double holds exactly.
\<close>

definition part_size :: "int \<Rightarrow> int \<Rightarrow> int \<Rightarrow> int" where
  "part_size fsize procCnt seqChunks = seqChunks * (ceil_div fsize procCnt div seqChunks)"

text \<open>
  \<^verbatim>\<open>fseeko(fd, readOffs, SEEK_SET)\<close> and \<^verbatim>\<open>fread(buffer, sizeof(char), seqChunks, fd)\<close>:
  the bytes that the file has at \<open>readOffs\<close> overwrite the start of the buffer; where
  the file ends early the rest of the buffer keeps what it held.
\<close>

definition fread_chunk :: "char list \<Rightarrow> int \<Rightarrow> int \<Rightarrow> char list \<Rightarrow> char list" where
  "fread_chunk file readOffs seqChunks buffer =
     (let bs = take (nat seqChunks) (drop (nat readOffs) file)
      in bs @ drop (length bs) buffer)"

text \<open>
  \<^verbatim>\<open>for(c = seqChunks - 1; c >= 0; c--)\<close>: the buffer is read in reverse; \<open>offset\<close> counts
  the bytes read. The second argument is \<open>c + 1\<close>. The result tells whether a \<open>>\<close> was
  found, and the count.
\<close>

fun chunk_scan :: "char list \<Rightarrow> nat \<Rightarrow> int \<Rightarrow> bool \<times> int" where
  "chunk_scan buffer 0 offset = (False, offset)"
| "chunk_scan buffer (Suc c) offset =
     (if buffer ! c = gt then (True, offset + 1) else chunk_scan buffer c (offset + 1))"

text \<open>
  \<^verbatim>\<open>while( foundSeqBeg == 0 )\<close>: chunks of one page are read backwards from the nominal
  end of the partition, \<open>offs + partSz\<close>. \<open>None\<close> is the \<^verbatim>\<open>return 2\<close> of a read offset
  below 0. The page size is positive on every system; the model also gives up for one
  that is not, where the C loop would not end.
\<close>

function find_seq_beg ::
  "char list \<Rightarrow> int \<Rightarrow> int \<Rightarrow> int \<Rightarrow> int \<Rightarrow> int \<Rightarrow> char list \<Rightarrow> (int \<times> char list) option" where
  "find_seq_beg file seqChunks partSz offs j offset buffer =
     (let readOffs = offs + partSz - seqChunks * (j + 1)
      in if readOffs < 0 \<or> seqChunks \<le> 0 then None
         else
           (let buffer' = fread_chunk file readOffs seqChunks buffer
            in case chunk_scan buffer' (nat seqChunks) offset of
                 (True, offset') \<Rightarrow> Some (offset', buffer')
               | (False, offset') \<Rightarrow>
                   find_seq_beg file seqChunks partSz offs (j + 1) offset' buffer'))"
  by pat_completeness auto
termination
  by (relation "measure (\<lambda>(file, seqChunks, partSz, offs, j, offset, buffer).
        nat (offs + partSz - seqChunks * j))") (auto simp: algebra_simps)

declare find_seq_beg.simps [simp del]

text \<open>
  The page offset and the skew of partition \<open>i > 0\<close>: the partition starts where the
  one before ends, and the page offset is that address rounded down to a page.
\<close>

definition next_offs :: "int list \<Rightarrow> nat \<Rightarrow> int \<Rightarrow> int list" where
  "next_offs fileOffs i seqChunks =
     (let prevOffs = fileOffs ! ((i - 1) * 3) + fileOffs ! ((i - 1) * 3 + 1)
                       + fileOffs ! ((i - 1) * 3 + 2);
          chunkOffs = prevOffs div seqChunks
      in fileOffs[i * 3 := seqChunks * chunkOffs, i * 3 + 1 := prevOffs - seqChunks * chunkOffs])"

text \<open>
  \<^verbatim>\<open>for(i = 0; i < procCnt; i++)\<close> of \<^verbatim>\<open>setOffsQueryFile\<close>: the value returned (0, or
  2 when the number of processes has to be reduced) and the array of offsets.
\<close>

function setOffs_for ::
  "char list \<Rightarrow> int \<Rightarrow> nat \<Rightarrow> int \<Rightarrow> int \<Rightarrow> nat \<Rightarrow> int list \<Rightarrow> char list \<Rightarrow> int \<times> int list" where
  "setOffs_for file fsize procCnt seqChunks partSz i fileOffs buffer =
     (if i < procCnt then
        (if i < procCnt - 1 then
           (let fo1 = (if i = 0 then fileOffs[i * 3 := 0, i * 3 + 1 := 0]
                       else next_offs fileOffs i seqChunks)
            in case find_seq_beg file seqChunks partSz (fo1 ! (i * 3)) 0 0 buffer of
                 None \<Rightarrow> (2, fo1)
               | Some (offset, buffer') \<Rightarrow>
                   (let fo2 = fo1[i * 3 + 2 := partSz - offset - fo1 ! (i * 3 + 1)]
                    in if fo2 ! (i * 3 + 2) = 0 then (2, fo2)
                       else setOffs_for file fsize procCnt seqChunks partSz (i + 1) fo2 buffer'))
         else
           (let fo1 = next_offs fileOffs i seqChunks;
                fo2 = fo1[i * 3 + 2 := fsize - (fo1 ! (i * 3) + fo1 ! (i * 3 + 1))]
            in setOffs_for file fsize procCnt seqChunks partSz (i + 1) fo2 buffer))
      else (0, fileOffs))"
  by pat_completeness auto
termination
  by (relation "measure (\<lambda>(file, fsize, procCnt, seqChunks, partSz, i, fileOffs, buffer).
        procCnt - i)") auto

declare setOffs_for.simps [simp del]

text \<open>
  \<^verbatim>\<open>setOffsQueryFile\<close>. \<open>buf0\<close> is what the buffer holds when \<^verbatim>\<open>malloc\<close> returns it.
\<close>

definition setOffsQueryFile ::
  "int list \<Rightarrow> char list \<Rightarrow> int \<Rightarrow> nat \<Rightarrow> int \<Rightarrow> char list \<Rightarrow> int \<times> int list" where
  "setOffsQueryFile fileOffs file fsize procCnt seqChunks buf0 =
     setOffs_for file fsize procCnt seqChunks (part_size fsize (int procCnt) seqChunks)
       0 fileOffs buf0"

text \<open>
  The \<^verbatim>\<open>while( 1 )\<close> loop that the master runs in \<^verbatim>\<open>setOffs\<close>: \<open>n0\<close> is the number of
  processes the run started with (the size of the array), \<open>n\<close> is \<^verbatim>\<open>mpi->procCnt\<close>.
  The result is the number of processes (or \<^verbatim>\<open>ERROR\<close>) and the array. A run has
  at least one process, so \<open>n \<le> 1\<close> is the test \<^verbatim>\<open>mpi->procCnt == 1\<close>.
\<close>

function setOffs_loop ::
  "char list \<Rightarrow> int \<Rightarrow> char list \<Rightarrow> nat \<Rightarrow> nat \<Rightarrow> int list \<Rightarrow> int \<times> int list" where
  "setOffs_loop file seqChunks buf0 n0 n fileOffs =
     (if n \<le> 1 then (1, fileOffs[0 := 0, 1 := 0, 2 := int (length file)])
      else
        (case setOffsQueryFile (replicate (n0 * 3) 0) file (int (length file)) n seqChunks buf0 of
           (err, fo) \<Rightarrow>
             if err = 2 then setOffs_loop file seqChunks buf0 n0 (n - 1) fo
             else if err \<noteq> 0 then (ERROR, fo)
             else (int n, fo)))"
  by pat_completeness auto
termination
  by (relation "measure (\<lambda>(file, seqChunks, buf0, n0, n, fileOffs). n)") auto

declare setOffs_loop.simps [simp del]

text \<open>
  \<^verbatim>\<open>setOffs\<close>, as far as the plan goes: the number of processes that remain and the
  array of offsets that is broadcast. \<open>procCnt\<close> is the number of processes of the run,
  \<open>seqChunks\<close> the page size; the size of the query file is the length of \<open>file\<close>.
\<close>

definition setOffs :: "char list \<Rightarrow> int \<Rightarrow> char list \<Rightarrow> nat \<Rightarrow> int \<times> int list" where
  "setOffs file seqChunks buf0 procCnt =
     (if procCnt = 1 then (1, (replicate (procCnt * 3) 0)[0 := 0, 1 := 0, 2 := int (length file)])
      else setOffs_loop file seqChunks buf0 procCnt procCnt (replicate (procCnt * 3) 0))"

text \<open>The start address and the end address of the partition \<open>i\<close> of a plan.\<close>

definition part_begin :: "int list \<Rightarrow> nat \<Rightarrow> int" where
  "part_begin fileOffs i = fileOffs ! (i * 3) + fileOffs ! (i * 3 + 1)"

definition part_len :: "int list \<Rightarrow> nat \<Rightarrow> int" where
  "part_len fileOffs i = fileOffs ! (i * 3 + 2)"

definition part_end :: "int list \<Rightarrow> nat \<Rightarrow> int" where
  "part_end fileOffs i = part_begin fileOffs i + part_len fileOffs i"

text \<open>
  The first \<open>i\<close> partitions of a plan are chained: the first starts at offset 0 with
  no skew, and each of the others starts at the address where the one before it ends.
\<close>

definition chain :: "int list \<Rightarrow> nat \<Rightarrow> bool" where
  "chain fo i = ((0 < i \<longrightarrow> fo ! 0 = 0 \<and> fo ! 1 = 0)
                 \<and> (\<forall>k. 0 < k \<and> k < i \<longrightarrow> part_begin fo k = part_end fo (k - 1)))"

text \<open>
  Following the specification (section 6): a well-formed FASTA file is a sequence of
  records; a record is a header line that begins with \<open>>\<close> at column 0, followed by
  one or more body lines that do not begin with \<open>>\<close>; every line ends with a newline.
  \<open>split_lines\<close> cuts the file at its newlines; \<open>spec_records\<close> reads the lines with
  the state 0 at the start, 1 after a header line and 2 after a body line.
\<close>

fun split_lines :: "char list \<Rightarrow> char list \<Rightarrow> char list list" where
  "split_lines [] cur = (if cur = [] then [] else [cur])"
| "split_lines (c # cs) cur = (if c = nl then cur # split_lines cs [] else split_lines cs (cur @ [c]))"

fun spec_records :: "char list list \<Rightarrow> nat \<Rightarrow> bool" where
  "spec_records [] st = (st = 2)"
| "spec_records (l # ls) st =
     (if l \<noteq> [] \<and> hd l = gt then (st = 0 \<or> st = 2) \<and> spec_records ls 1
      else l \<noteq> [] \<and> (st = 1 \<or> st = 2) \<and> spec_records ls 2)"

definition spec_wellformed :: "char list \<Rightarrow> bool" where
  "spec_wellformed fl = (fl \<noteq> [] \<and> last fl = nl \<and> spec_records (split_lines fl []) 0)"

text \<open>
  Following the specification: the byte at \<open>g\<close> begins a record when it is a \<open>>\<close> that
  is preceded by a newline or stands at the start of the file.
\<close>

definition spec_record_start :: "char list \<Rightarrow> nat \<Rightarrow> bool" where
  "spec_record_start fl g = (g < length fl \<and> fl ! g = gt \<and> (g = 0 \<or> fl ! (g - 1) = nl))"

text \<open>Every \<open>>\<close> of the file stands at the start of a line.\<close>

definition gt_at_line_starts :: "char list \<Rightarrow> bool" where
  "gt_at_line_starts fl = list_all (\<lambda>g. fl ! g = gt \<longrightarrow> g = 0 \<or> fl ! (g - 1) = nl) [0..<length fl]"

text \<open>
  The ends of the first \<open>i\<close> partitions that are not the last of \<open>n\<close>: each lies
  inside the nominal windows of the partitions up to it, and the byte there is a \<open>>\<close>.
\<close>

definition cuts :: "char list \<Rightarrow> int \<Rightarrow> nat \<Rightarrow> int list \<Rightarrow> nat \<Rightarrow> bool" where
  "cuts fl partSz n fo i =
     (\<forall>k<i. k < n - 1 \<longrightarrow>
        0 \<le> part_end fo k \<and> part_end fo k < (int k + 1) * partSz
        \<and> fl ! nat (part_end fo k) = gt)"

section \<open>The report of the hit IDs not found: writeHitsNotFound\<close>

text \<open>
  \<^verbatim>\<open>MPI_Reduce(hits->charVect, allCharVect, hits->htotal, MPI_INT, MPI_SUM, 0, ...)\<close>:
  the element-wise sum of the characteristic vectors of all processes, one vector per
  process in \<open>vs\<close>.
\<close>

definition mpi_reduce_sum :: "int list list \<Rightarrow> nat \<Rightarrow> int list" where
  "mpi_reduce_sum vs n = map (\<lambda>i. sum_list (map (\<lambda>v. v ! i) vs)) [0..<n]"

text \<open>
  \<^verbatim>\<open>for( i = 0; i < hits->htotal; i++ )\<close> on the master: a hit ID whose entry of the
  summed vector is zero is written to the file, followed by a newline.
\<close>

function notFound_loop :: "string list \<Rightarrow> int list \<Rightarrow> nat \<Rightarrow> nat \<Rightarrow> char list \<Rightarrow> char list" where
  "notFound_loop hl allCharVect i n file =
     (if i < n then
        notFound_loop hl allCharVect (i + 1) n
          (if allCharVect ! i = 0 then file @ hl ! i @ [nl] else file)
      else file)"
  by pat_completeness auto
termination
  by (relation "measure (\<lambda>(hl, allCharVect, i, n, file). n - i)") auto

declare notFound_loop.simps [simp del]

text \<open>
  \<^verbatim>\<open>writeHitsNotFound\<close>, seen from the master: \<open>fopen_ok\<close> tells whether the file
  \<^verbatim>\<open><output>.notFound\<close> could be opened. The result is the value returned and the file
  that is left: \<open>None\<close> when there is none (not opened, or removed). The size tested
  for the removal is \<^verbatim>\<open>int fsize = stbuf.st_size\<close>, the low 32 bits of the size.
\<close>

definition writeHitsNotFound :: "bool \<Rightarrow> hits_t \<Rightarrow> int list list \<Rightarrow> int \<times> char list option" where
  "writeHitsNotFound fopen_ok h vs =
     (if \<not> fopen_ok then (ERROR, None)
      else
        (let allCharVect = mpi_reduce_sum vs (htotal h);
             file = notFound_loop (hitList h) allCharVect 0 (htotal h) [];
             fsize = sint (word_of_nat (length file) :: 32 word)
         in if fsize \<le> 0 then (0, None) else (0, Some file)))"

text \<open>
  Following the specification: the report holds the indexed hit IDs whose entries,
  summed over the workers, are 0, one per line, in index order.
\<close>

definition spec_notFound :: "hits_t \<Rightarrow> int list list \<Rightarrow> char list" where
  "spec_notFound h vs =
     concat (map (\<lambda>i. hitList h ! i @ [nl])
       (filter (\<lambda>i. sum_list (map (\<lambda>v. v ! i) vs) = 0) [0..<htotal h]))"

section \<open>Properties of the state of a scan\<close>

text \<open>Nothing was written or counted between two states.\<close>

definition same_counters :: "scan_t \<Rightarrow> scan_t \<Rightarrow> bool" where
  "same_counters s s' =
     (xCnt s' = xCnt s \<and> bytesWritten s' = bytesWritten s \<and> out s' = out s
      \<and> doneFlag s' = doneFlag s)"

text \<open>The characteristic vector is unchanged or one entry of it was set to 1.\<close>

definition marked :: "hits_t \<Rightarrow> int list \<Rightarrow> int list \<Rightarrow> bool" where
  "marked h cv cv' = (cv' = cv \<or> (\<exists>i<length (hitList h). cv' = cv[i := 1]))"

text \<open>
  The budget of a scan: the bytes written are within the byte limit, the counter of
  bytes is the size of the output file, and in a run of one process the number of
  extracted records is within the limit on the number of sequences.
\<close>

definition budget :: "args_t \<Rightarrow> int \<Rightarrow> scan_t \<Rightarrow> bool" where
  "budget a np s =
     (bytesWritten s \<le> bytesLimit a \<and> int (length (out s)) = bytesWritten s
      \<and> (np = 1 \<longrightarrow> xCnt s \<le> seqCnt a))"

text \<open>
  The predicate that the lookup evaluates for one hit ID \<open>h\<close> on the header from the
  \<open>>\<close> at \<open>ia\<close> to the newline at \<open>e\<close>: the bytes of \<open>h\<close> stand right after the \<open>>\<close>,
  or right after an SOH byte of the header.
\<close>

definition hit_match :: "char list \<Rightarrow> nat \<Rightarrow> nat \<Rightarrow> string \<Rightarrow> bool" where
  "hit_match m ia e h =
     (strncmp_hit h m (Suc ia)
      \<or> list_ex (\<lambda>p. m ! p = soh \<and> strncmp_hit h m (Suc p)) [Suc ia..<Suc e])"


text \<open>
  The quota of hits: in a run of one process that looks hit IDs up, no more records
  are extracted than there are hit IDs.
\<close>

definition quota :: "hits_t \<Rightarrow> int \<Rightarrow> scan_t \<Rightarrow> bool" where
  "quota h np s = (np = 1 \<and> lookup_mode h \<longrightarrow> xCnt s \<le> int (htotal h))"

section \<open>The lookup as the specification words it\<close>

text \<open>
  Following the specification: an ID of a header runs up to the next \<open>|\<close> or SOH
  delimiter, or to the end of the header. The header list is the first ID (the bytes
  after the \<open>>\<close>) and every ID that begins right after an SOH byte of the header;
  \<open>hdr\<close> is the header line without its \<open>>\<close> and without its newline. A record is
  accepted when an ID of its header list is equal to an indexed hit ID.
\<close>

definition spec_id :: "char list \<Rightarrow> char list" where
  "spec_id xs = takeWhile (\<lambda>c. c \<noteq> bar \<and> c \<noteq> soh) xs"

definition spec_header_ids :: "char list \<Rightarrow> char list list" where
  "spec_header_ids hdr =
     spec_id hdr
       # map (\<lambda>p. spec_id (drop (Suc p) hdr)) (filter (\<lambda>p. hdr ! p = soh) [0..<length hdr])"

definition spec_lookup :: "string list \<Rightarrow> char list \<Rightarrow> bool" where
  "spec_lookup hl hdr = list_ex (\<lambda>x. x \<in> set hl) (spec_header_ids hdr)"

text \<open>The header of the record whose \<open>>\<close> is at \<open>i\<close> and whose newline is at \<open>e\<close>.\<close>

definition record_header :: "char list \<Rightarrow> nat \<Rightarrow> nat \<Rightarrow> char list" where
  "record_header m i e = take (e - Suc i) (drop (Suc i) m)"





section \<open>Inputs of the examples\<close>

text \<open>
  The FASTA file of the scenarios of the specification: \<open>r1\<close> has 4 sequence bytes,
  \<open>r2\<close> has 6 on two lines.
\<close>

definition fasta_r1 :: "char list" where
  "fasta_r1 = ''>r1|alpha'' @ [nl] @ ''ACGT'' @ [nl]"

definition fasta_r2 :: "char list" where
  "fasta_r2 = ''>r2|beta'' @ [nl] @ ''GGG'' @ [nl] @ ''TTT'' @ [nl]"

definition fasta_r1r2 :: "char list" where
  "fasta_r1r2 = fasta_r1 @ fasta_r2"

text \<open>The plan of a run with one process on a file of \<open>n\<close> bytes.\<close>

definition plan1 :: "nat \<Rightarrow> int list" where
  "plan1 n = [0, 0, int n]"

text \<open>\<^verbatim>\<open>IMAP_LIMIT\<close> as the source defines it, and the usual page size.\<close>

definition IMAP_LIMIT :: int where "IMAP_LIMIT = 268435456"
definition PAGE_SIZE :: int where "PAGE_SIZE = 4096"

text \<open>A run of one process that filters and has no hit IDs.\<close>

definition no_hits :: hits_t where
  "no_hits = \<lparr>hitList = [], hPipeMode = 0, hSearchMode = 0\<rparr>"

text \<open>Command lines: two exact lengths; an exact length with a search file; a BLAST table
  for the HMMER pipeline with a search file.\<close>

definition opts_two_lengths :: "opt list" where
  "opts_two_lengths = [OptQ ''in.fa'', OptLen 6, OptLen 4]"

definition opts_length_and_search :: "opt list" where
  "opts_length_and_search = [OptQ ''in.fa'', OptLen 6, OptS ''ids.txt'']"

definition opts_pipe_and_search :: "opt list" where
  "opts_pipe_and_search = [OptQ ''in.fa'', OptT ''blast.tab'', OptP 1, OptS ''ids.txt'']"

text \<open>Three hit IDs of a BLAST table.\<close>

definition hits_h123 :: hits_t where
  "hits_h123 = \<lparr>hitList = [''h1'', ''h2'', ''h3''], hPipeMode = 1, hSearchMode = 0\<rparr>"

text \<open>
  A file of four records, the third with a \<open>>\<close> inside its header line, and the plan
  that the partitioner returns for it with a page size of 4 and five processes (two of
  which are dropped).
\<close>

definition fasta_four :: "char list" where
  "fasta_four = ''>a'' @ [nl] @ ''ACGT'' @ [nl] @ ''>b'' @ [nl] @ ''AC'' @ [nl]
     @ ''>c x>y'' @ [nl] @ ''ACGTAC'' @ [nl] @ ''>d'' @ [nl] @ ''ACGTACGTAC'' @ [nl]"

definition plan_four :: "int list" where
  "plan_four = [0, 0, 8, 8, 0, 10, 16, 2, 24, 0, 0, 0, 0, 0, 0]"

text \<open>
  The plan for the file of the two records \<open>r1\<close> and \<open>r2\<close> with a page size of 4 and
  three processes, one of which is dropped: the second partition starts at byte 15.
\<close>

definition plan_r1r2 :: "int list" where
  "plan_r1r2 = [0, 0, 15, 12, 3, 17, 0, 0, 0]"





text \<open>
  Two hit IDs of a search file, and a file of three records: two whose first ID is
  \<open>h1\<close> and one whose first ID is \<open>h2\<close>. \<open>scan_two_h1\<close> is the state of the scan of
  that file after the two records of \<open>h1\<close> were written.
\<close>

definition hits_h12 :: hits_t where
  "hits_h12 = \<lparr>hitList = [''h1'', ''h2''], hPipeMode = 0, hSearchMode = 1\<rparr>"

definition fasta_h1a :: "char list" where
  "fasta_h1a = ''>h1|a'' @ [nl] @ ''AC'' @ [nl]"

definition fasta_h1b :: "char list" where
  "fasta_h1b = ''>h1|b'' @ [nl] @ ''GG'' @ [nl]"

definition fasta_h2 :: "char list" where
  "fasta_h2 = ''>h2'' @ [nl] @ ''TT'' @ [nl]"

definition fasta_h1h1h2 :: "char list" where
  "fasta_h1h1h2 = fasta_h1a @ fasta_h1b @ fasta_h2"

definition scan_two_h1 :: scan_t where
  "scan_two_h1 = (scan_init hits_h12)\<lparr>mem := fasta_h1h1h2, fptr := 24, iaq := 9, faq := 14,
      isq := 15, fsq := 17, xCnt := 2, bytesWritten := 18, out := fasta_h1a @ fasta_h1b,
      charVect := [1, 0]\<rparr>"

text \<open>
  A record whose first ID is \<open>h10\<close>, and the state of a scan that is about to read the
  first record of \<open>h1\<close>.
\<close>

definition fasta_h10 :: "char list" where
  "fasta_h10 = ''>h10|x'' @ [nl] @ ''ACGT'' @ [nl]"

definition scan_h1a :: scan_t where
  "scan_h1a = (scan_init hits_h12)\<lparr>mem := fasta_h1a, fptr := 8\<rparr>"








text \<open>A hit ID of a BLAST table that spans several fields, and a record that carries it.\<close>

definition hits_gi :: hits_t where
  "hits_gi = \<lparr>hitList = [''gi|7|ref|X''], hPipeMode = 1, hSearchMode = 0\<rparr>"

definition fasta_gi :: "char list" where
  "fasta_gi = ''>gi|7|ref|X|demo'' @ [nl] @ ''ACGT'' @ [nl]"




section \<open>Unfolding the loop over the windows\<close>

lemma partQueryFile_loop_stop:
  "\<not> (nmap < nmaps \<and> \<not> doneFlag (snd bs)) \<Longrightarrow>
   partQueryFile_loop a h np fl fo rank psz qfsz msz nmaps nmap bs = (0, snd bs)"
  by (subst partQueryFile_loop.simps) auto

lemma partQueryFile_loop_error:
  "nmap < nmaps \<Longrightarrow> \<not> doneFlag (snd bs) \<Longrightarrow>
   partQueryFile_body a h np fl fo rank psz qfsz msz nmaps nmap bs = Inl s \<Longrightarrow>
   partQueryFile_loop a h np fl fo rank psz qfsz msz nmaps nmap bs = (ERROR, s)"
  by (subst partQueryFile_loop.simps) auto

lemma partQueryFile_loop_step:
  "nmap < nmaps \<Longrightarrow> \<not> doneFlag (snd bs) \<Longrightarrow>
   partQueryFile_body a h np fl fo rank psz qfsz msz nmaps nmap bs = Inr bs' \<Longrightarrow>
   partQueryFile_loop a h np fl fo rank psz qfsz msz nmaps nmap bs
     = partQueryFile_loop a h np fl fo rank psz qfsz msz nmaps (nmap + 1) bs'"
  by (subst partQueryFile_loop.simps) auto

section \<open>The plan of the partitioner is a chain\<close>

text \<open>
  What an entry of the plan depends on, and how the next link of the chain is made.
\<close>

lemma next_offs_length [simp]: "length (next_offs fo i P) = length fo"
  by (simp add: next_offs_def Let_def)

lemma next_offs_nth_low: "j < i * 3 \<Longrightarrow> next_offs fo i P ! j = fo ! j"
  by (simp add: next_offs_def Let_def)

lemma next_offs_begin:
  "0 < i \<Longrightarrow> i * 3 + 1 < length fo \<Longrightarrow> part_begin (next_offs fo i P) i = part_end fo (i - 1)"
  by (simp add: next_offs_def Let_def part_begin_def part_end_def part_len_def)

lemma part_begin_upd_high: "k * 3 + 1 < j \<Longrightarrow> part_begin (fo[j := v]) k = part_begin fo k"
  by (simp add: part_begin_def)

lemma part_end_upd_high: "k * 3 + 2 < j \<Longrightarrow> part_end (fo[j := v]) k = part_end fo k"
  by (simp add: part_end_def part_begin_def part_len_def)

lemma part_begin_cong:
  "(\<And>j. j < k * 3 + 2 \<Longrightarrow> fo' ! j = fo ! j) \<Longrightarrow> part_begin fo' k = part_begin fo k"
  by (simp add: part_begin_def)

lemma part_end_cong:
  "(\<And>j. j < k * 3 + 3 \<Longrightarrow> fo' ! j = fo ! j) \<Longrightarrow> part_end fo' k = part_end fo k"
  by (simp add: part_end_def part_begin_def part_len_def)

lemma chain_extend:
  assumes c: "chain fo i" and same: "\<And>j. j < i * 3 \<Longrightarrow> fo' ! j = fo ! j"
    and link: "if i = 0 then fo' ! 0 = 0 \<and> fo' ! 1 = 0 else part_begin fo' i = part_end fo (i - 1)"
  shows "chain fo' (Suc i)"
proof -
  have first: "fo' ! 0 = 0 \<and> fo' ! 1 = 0"
  proof (cases "i = 0")
    case True with link show ?thesis by simp
  next
    case False
    with c same [of 0] same [of 1] show ?thesis by (simp add: chain_def)
  qed
  have links: "part_begin fo' k = part_end fo' (k - 1)" if k: "0 < k" "k < Suc i" for k
  proof (cases "k = i")
    case True
    with k link have "part_begin fo' k = part_end fo (k - 1)" by simp
    moreover from True k have "part_end fo' (k - 1) = part_end fo (k - 1)"
      by (intro part_end_cong same) auto
    ultimately show ?thesis by simp
  next
    case False
    with k have lt: "k < i" by simp
    then have "part_begin fo' k = part_begin fo k"
      by (intro part_begin_cong same) auto
    moreover from lt k have "part_end fo' (k - 1) = part_end fo (k - 1)"
      by (intro part_end_cong same) auto
    ultimately show ?thesis using c k lt by (simp add: chain_def)
  qed
  from first links show ?thesis
    by (simp add: chain_def)
qed

text \<open>The loop of \<^verbatim>\<open>setOffsQueryFile\<close>, one pass at a time.\<close>

lemma setOffs_for_done:
  "\<not> i < n \<Longrightarrow> setOffs_for fl fsize n P partSz i fo buf = (0, fo)"
  by (subst setOffs_for.simps) simp

lemma setOffs_for_none:
  "i < n \<Longrightarrow> i < n - 1 \<Longrightarrow>
   fo1 = (if i = 0 then fo[i * 3 := 0, i * 3 + 1 := 0] else next_offs fo i P) \<Longrightarrow>
   find_seq_beg fl P partSz (fo1 ! (i * 3)) 0 0 buf = None \<Longrightarrow>
   setOffs_for fl fsize n P partSz i fo buf = (2, fo1)"
  by (subst setOffs_for.simps) (simp add: Let_def)

lemma setOffs_for_zero:
  "i < n \<Longrightarrow> i < n - 1 \<Longrightarrow>
   fo1 = (if i = 0 then fo[i * 3 := 0, i * 3 + 1 := 0] else next_offs fo i P) \<Longrightarrow>
   find_seq_beg fl P partSz (fo1 ! (i * 3)) 0 0 buf = Some (offset, buf') \<Longrightarrow>
   fo2 = fo1[i * 3 + 2 := partSz - offset - fo1 ! (i * 3 + 1)] \<Longrightarrow>
   fo2 ! (i * 3 + 2) = 0 \<Longrightarrow>
   setOffs_for fl fsize n P partSz i fo buf = (2, fo2)"
  by (subst setOffs_for.simps) (simp add: Let_def)

lemma setOffs_for_step:
  "i < n \<Longrightarrow> i < n - 1 \<Longrightarrow>
   fo1 = (if i = 0 then fo[i * 3 := 0, i * 3 + 1 := 0] else next_offs fo i P) \<Longrightarrow>
   find_seq_beg fl P partSz (fo1 ! (i * 3)) 0 0 buf = Some (offset, buf') \<Longrightarrow>
   fo2 = fo1[i * 3 + 2 := partSz - offset - fo1 ! (i * 3 + 1)] \<Longrightarrow>
   fo2 ! (i * 3 + 2) \<noteq> 0 \<Longrightarrow>
   setOffs_for fl fsize n P partSz i fo buf = setOffs_for fl fsize n P partSz (i + 1) fo2 buf'"
  by (subst setOffs_for.simps) (simp add: Let_def)

lemma setOffs_for_last:
  "i < n \<Longrightarrow> \<not> i < n - 1 \<Longrightarrow> fo1 = next_offs fo i P \<Longrightarrow>
   fo2 = fo1[i * 3 + 2 := fsize - (fo1 ! (i * 3) + fo1 ! (i * 3 + 1))] \<Longrightarrow>
   setOffs_for fl fsize n P partSz i fo buf = setOffs_for fl fsize n P partSz (i + 1) fo2 buf"
  by (subst setOffs_for.simps) (simp add: Let_def)

lemma setOffs_for_ret:
  "setOffs_for fl fsize n P partSz i fo buf = (e, fo') \<Longrightarrow>
     (e = 0 \<or> e = 2) \<and> length fo' = length fo"
proof (induction fl fsize n P partSz i fo buf rule: setOffs_for.induct)
  case (1 fl fsize n P partSz i fo buf)
  show ?case
  proof (cases "i < n")
    case False
    with "1.prems" show ?thesis
      by (simp add: setOffs_for_done)
  next
    case inb: True
    show ?thesis
    proof (cases "i < n - 1")
      case mid: True
      define fo1 where "fo1 = (if i = 0 then fo[i * 3 := 0, i * 3 + 1 := 0] else next_offs fo i P)"
      have len1: "length fo1 = length fo"
        by (simp add: fo1_def)
      show ?thesis
      proof (cases "find_seq_beg fl P partSz (fo1 ! (i * 3)) 0 0 buf")
        case None
        from "1.prems" len1 show ?thesis
          by (simp add: setOffs_for_none [OF inb mid fo1_def None])
      next
        case (Some ob)
        obtain offset buf' where ob: "ob = (offset, buf')"
          by (cases ob)
        note fsb = Some [unfolded ob]
        define fo2 where "fo2 = fo1[i * 3 + 2 := partSz - offset - fo1 ! (i * 3 + 1)]"
        have len2: "length fo2 = length fo"
          by (simp add: fo2_def len1)
        show ?thesis
        proof (cases "fo2 ! (i * 3 + 2) = 0")
          case True
          from "1.prems" len2 show ?thesis
            by (simp add: setOffs_for_zero [OF inb mid fo1_def fsb fo2_def True])
        next
          case False
          from "1.prems"
          have rec: "setOffs_for fl fsize n P partSz (i + 1) fo2 buf' = (e, fo')"
            by (simp add: setOffs_for_step [OF inb mid fo1_def fsb fo2_def False])
          from "1.IH"(1) [OF inb mid fo1_def fsb refl fo2_def False rec] len2
          show ?thesis by simp
        qed
      qed
    next
      case last: False
      define fo1 where "fo1 = next_offs fo i P"
      define fo2 where "fo2 = fo1[i * 3 + 2 := fsize - (fo1 ! (i * 3) + fo1 ! (i * 3 + 1))]"
      have len2: "length fo2 = length fo"
        by (simp add: fo2_def fo1_def)
      from "1.prems" have rec: "setOffs_for fl fsize n P partSz (i + 1) fo2 buf = (e, fo')"
        by (simp add: setOffs_for_last [OF inb last fo1_def fo2_def])
      from "1.IH"(2) [OF inb last fo1_def fo2_def rec] len2
      show ?thesis by simp
    qed
  qed
qed

lemma setOffs_for_plan:
  "setOffs_for fl fsize n P partSz i fo buf = (0, fo') \<Longrightarrow> 2 \<le> n \<Longrightarrow> i \<le> n \<Longrightarrow>
   n * 3 \<le> length fo \<Longrightarrow> chain fo i \<Longrightarrow> (i = n \<longrightarrow> part_end fo (n - 1) = fsize) \<Longrightarrow>
   length fo' = length fo \<and> chain fo' n \<and> part_end fo' (n - 1) = fsize"
proof (induction fl fsize n P partSz i fo buf rule: setOffs_for.induct)
  case (1 fl fsize n P partSz i fo buf)
  show ?case
  proof (cases "i < n")
    case False
    with "1.prems" show ?thesis
      by (simp add: setOffs_for.simps [of fl fsize n P partSz i fo buf])
  next
    case inb: True
    show ?thesis
    proof (cases "i < n - 1")
      case mid: True
      define fo1 where "fo1 = (if i = 0 then fo[i * 3 := 0, i * 3 + 1 := 0] else next_offs fo i P)"
      from "1.prems"(1) inb mid obtain offset buf' where
        fsb: "find_seq_beg fl P partSz (fo1 ! (i * 3)) 0 0 buf = Some (offset, buf')"
        by (auto simp: setOffs_for.simps [of fl fsize n P partSz i fo buf] fo1_def Let_def
            split: option.splits if_splits)
      define fo2 where "fo2 = fo1[i * 3 + 2 := partSz - offset - fo1 ! (i * 3 + 1)]"
      from "1.prems"(1) inb mid fsb have nz: "fo2 ! (i * 3 + 2) \<noteq> 0"
        and rec: "setOffs_for fl fsize n P partSz (i + 1) fo2 buf' = (0, fo')"
        by (auto simp: setOffs_for.simps [of fl fsize n P partSz i fo buf] fo1_def fo2_def Let_def
            split: option.splits if_splits)
      have len: "length fo2 = length fo"
        by (simp add: fo2_def fo1_def)
      have same: "\<And>j. j < i * 3 \<Longrightarrow> fo2 ! j = fo ! j"
        by (simp add: fo2_def fo1_def next_offs_nth_low)
      have inrange: "i * 3 + 2 < length fo"
        using inb "1.prems"(4) by simp
      have link: "if i = 0 then fo2 ! 0 = 0 \<and> fo2 ! 1 = 0 else part_begin fo2 i = part_end fo (i - 1)"
      proof (cases "i = 0")
        case True
        moreover from inrange have "0 < length fo" "1 < length fo" by auto
        ultimately show ?thesis by (simp add: fo2_def fo1_def)
      next
        case False
        then have "part_begin fo2 i = part_begin (next_offs fo i P) i"
          by (simp add: fo2_def fo1_def part_begin_upd_high)
        with False inrange show ?thesis by (simp add: next_offs_begin)
      qed
      have ch: "chain fo2 (i + 1)"
        using chain_extend [OF "1.prems"(5) same link] by simp
      have "length fo' = length fo2 \<and> chain fo' n \<and> part_end fo' (n - 1) = fsize"
      proof (rule "1.IH"(1) [OF inb mid fo1_def fsb refl fo2_def nz])
        show "setOffs_for fl fsize n P partSz (i + 1) fo2 buf' = (0, fo')" by fact
        show "2 \<le> n" by fact
        show "i + 1 \<le> n" using inb by simp
        show "n * 3 \<le> length fo2" using len "1.prems"(4) by simp
        show "chain fo2 (i + 1)" by fact
        show "i + 1 = n \<longrightarrow> part_end fo2 (n - 1) = fsize" using mid by auto
      qed
      with len show ?thesis by simp
    next
      case last: False
      with inb have ieq: "i = n - 1" by simp
      with "1.prems"(2) have ipos: "0 < i" by simp
      define fo1 where "fo1 = next_offs fo i P"
      define fo2 where "fo2 = fo1[i * 3 + 2 := fsize - (fo1 ! (i * 3) + fo1 ! (i * 3 + 1))]"
      from "1.prems"(1) inb last have rec: "setOffs_for fl fsize n P partSz (i + 1) fo2 buf = (0, fo')"
        by (simp add: setOffs_for.simps [of fl fsize n P partSz i fo buf] fo1_def fo2_def Let_def)
      have len: "length fo2 = length fo"
        by (simp add: fo2_def fo1_def)
      have same: "\<And>j. j < i * 3 \<Longrightarrow> fo2 ! j = fo ! j"
        by (simp add: fo2_def fo1_def next_offs_nth_low)
      have inrange: "i * 3 + 2 < length fo"
        using inb "1.prems"(4) by simp
      have "part_begin fo2 i = part_begin (next_offs fo i P) i"
        by (simp add: fo2_def fo1_def part_begin_upd_high)
      with ipos inrange have link:
        "if i = 0 then fo2 ! 0 = 0 \<and> fo2 ! 1 = 0 else part_begin fo2 i = part_end fo (i - 1)"
        by (simp add: next_offs_begin)
      have ch: "chain fo2 (i + 1)"
        using chain_extend [OF "1.prems"(5) same link] by simp
      have pe: "part_end fo2 i = fsize"
        using inrange by (simp add: fo2_def fo1_def part_end_def part_begin_def part_len_def)
      have "length fo' = length fo2 \<and> chain fo' n \<and> part_end fo' (n - 1) = fsize"
      proof (rule "1.IH"(2) [OF inb last fo1_def fo2_def])
        show "setOffs_for fl fsize n P partSz (i + 1) fo2 buf = (0, fo')" by fact
        show "2 \<le> n" by fact
        show "i + 1 \<le> n" using inb by simp
        show "n * 3 \<le> length fo2" using len "1.prems"(4) by simp
        show "chain fo2 (i + 1)" by fact
        show "i + 1 = n \<longrightarrow> part_end fo2 (n - 1) = fsize" using pe ieq by simp
      qed
      with len show ?thesis by simp
    qed
  qed
qed

lemma chain_sum:
  "chain fo n \<Longrightarrow> 0 < n \<Longrightarrow> (\<Sum>i<n. part_len fo i) = part_end fo (n - 1)"
proof (induction n)
  case 0
  then show ?case by simp
next
  case (Suc n)
  show ?case
  proof (cases "n = 0")
    case True
    with Suc.prems show ?thesis
      by (simp add: chain_def part_end_def part_begin_def)
  next
    case False
    from Suc.prems have "chain fo n"
      by (simp add: chain_def)
    with Suc.IH False have "(\<Sum>i<n. part_len fo i) = part_end fo (n - 1)"
      by simp
    moreover from Suc.prems False have "part_begin fo n = part_end fo (n - 1)"
      by (simp add: chain_def)
    ultimately show ?thesis
      by (simp add: part_end_def)
  qed
qed

lemma single_plan:
  assumes "3 \<le> length fo"
  shows "chain (fo[0 := 0, 1 := 0, 2 := s]) 1 \<and> part_end (fo[0 := 0, 1 := 0, 2 := s]) 0 = s"
proof -
  from assms have "0 < length fo" "1 < length fo" "2 < length fo"
    by auto
  then show ?thesis
    by (simp add: chain_def part_end_def part_begin_def part_len_def numeral_2_eq_2)
qed

lemma setOffs_loop_plan:
  "setOffs_loop fl P buf0 n0 n fo = (r, fo') \<Longrightarrow> 1 \<le> n \<Longrightarrow> n \<le> n0 \<Longrightarrow> length fo = n0 * 3 \<Longrightarrow>
   \<exists>N'. r = int N' \<and> 1 \<le> N' \<and> N' \<le> n \<and> chain fo' N' \<and> part_end fo' (N' - 1) = int (length fl)"
proof (induction fl P buf0 n0 n fo arbitrary: r fo' rule: setOffs_loop.induct)
  case (1 fl P buf0 n0 n fo)
  show ?case
  proof (cases "n \<le> 1")
    case True
    with "1.prems" have n1: "n = 1" by simp
    from True "1.prems"(1) have "r = 1" "fo' = fo[0 := 0, 1 := 0, 2 := int (length fl)]"
      by (simp_all add: setOffs_loop.simps [of fl P buf0 n0 n fo])
    moreover from "1.prems" n1 have "3 \<le> length fo" by simp
    ultimately show ?thesis
      using single_plan [of fo "int (length fl)"] n1 by (intro exI [of _ 1]) simp
  next
    case False
    obtain err fo1 where q: "setOffsQueryFile (replicate (n0 * 3) 0) fl (int (length fl)) n P buf0 = (err, fo1)"
      by (cases "setOffsQueryFile (replicate (n0 * 3) 0) fl (int (length fl)) n P buf0")
    then have ret: "(err = 0 \<or> err = 2) \<and> length fo1 = n0 * 3"
      using setOffs_for_ret [of fl "int (length fl)" n P _ 0 "replicate (n0 * 3) 0" buf0 err fo1]
      by (simp add: setOffsQueryFile_def)
    show ?thesis
    proof (cases "err = 2")
      case True
      with False q "1.prems"(1) have rec: "setOffs_loop fl P buf0 n0 (n - 1) fo1 = (r, fo')"
        by (simp add: setOffs_loop.simps [of fl P buf0 n0 n fo])
      from False "1.prems" have "1 \<le> n - 1" "n - 1 \<le> n0"
        by auto
      from "1.IH" [OF False q [symmetric] True rec this] ret
      obtain N' where "r = int N'" "1 \<le> N'" "N' \<le> n - 1" "chain fo' N'"
        "part_end fo' (N' - 1) = int (length fl)"
        by auto
      then show ?thesis
        by (intro exI [of _ N']) simp
    next
      case False2: False
      with ret have e0: "err = 0" by simp
      with False q "1.prems"(1) have res: "r = int n" "fo' = fo1"
        by (simp_all add: setOffs_loop.simps [of fl P buf0 n0 n fo])
      from q e0 have "setOffs_for fl (int (length fl)) n P (part_size (int (length fl)) (int n) P) 0
            (replicate (n0 * 3) 0) buf0 = (0, fo1)"
        by (simp add: setOffsQueryFile_def)
      from setOffs_for_plan [OF this] False "1.prems"
      have "chain fo1 n \<and> part_end fo1 (n - 1) = int (length fl)"
        by (simp add: chain_def)
      with res False show ?thesis
        by (intro exI [of _ n]) simp
    qed
  qed
qed

lemma setOffs_plan:
  assumes "1 \<le> N" and res: "setOffs fl P buf0 N = (r, fo)"
  shows "\<exists>N'. r = int N' \<and> 1 \<le> N' \<and> N' \<le> N \<and> chain fo N' \<and> part_end fo (N' - 1) = int (length fl)"
proof (cases "N = 1")
  case True
  with res have "r = 1" "fo = (replicate 3 0)[0 := 0, 1 := 0, 2 := int (length fl)]"
    by (simp_all add: setOffs_def)
  then show ?thesis
    using single_plan [of "replicate 3 0" "int (length fl)"] True by (intro exI [of _ 1]) simp
next
  case False
  with res have "setOffs_loop fl P buf0 N N (replicate (N * 3) 0) = (r, fo)"
    by (simp add: setOffs_def)
  from setOffs_loop_plan [OF this] assms show ?thesis
    by simp
qed

section \<open>One pass of the scanning loop, and invariants of a scan\<close>

lemma getAnnot_Some:
  "getAnnot m f p = Some (i, e) \<Longrightarrow> p \<le> i \<and> i < e \<and> e < length m \<and> m ! i = gt \<and> m ! e = nl"
  by (auto simp: getAnnot_def split: option.splits dest!: getAnnot_start_Some getAnnot_end_Some)

lemma getSequence_Some:
  "getSequence m f e = Some (b, q, n) \<Longrightarrow> b = Suc e \<and> b \<le> q \<and> 0 < n"
proof -
  assume a: "getSequence m f e = Some (b, q, n)"
  then obtain q' n' where l: "getSequence_loop m f (Suc e) 0 = (q', n')"
    by (cases "getSequence_loop m f (Suc e) 0")
  with a have "n' \<noteq> 0" "b = Suc e" "q = q'" "n = n'"
    by (auto simp: getSequence_def split: if_splits)
  with getSequence_loop_bounds [OF l] show ?thesis
    by auto
qed

lemma alt_loop_Some: "alt_loop m e h paq = Some r \<Longrightarrow> paq < r \<and> r < length m \<and> m ! r = soh"
proof (induction m e h paq rule: alt_loop.induct)
  case (1 m e h paq)
  from "1.prems" show ?case
    by (subst (asm) alt_loop.simps) (auto split: if_splits dest!: "1.IH" [rotated -1])
qed

lemma hits_loop_gt:
  "hits_loop ac hl i m ia e cv = (sel, m', ia', cv') \<Longrightarrow> ia < length m \<Longrightarrow> m ! ia = gt \<Longrightarrow>
     ia' < length m' \<and> m' ! ia' = gt"
proof (induction ac hl i m ia e cv rule: hits_loop.induct)
  case (1 ac hl i m ia e cv)
  from "1.prems" show ?case
    by (subst (asm) hits_loop.simps)
       (auto split: if_splits option.splits dest!: alt_loop_Some "1.IH" [rotated -1])
qed

lemma parseAnnot_loop_ge:
  "i \<le> p \<Longrightarrow> min (annotSz - 1) (int p - int i) \<le> parseAnnot_loop m i e p cnt annotSz"
proof (induction m i e p cnt annotSz rule: parseAnnot_loop.induct)
  case (1 m i e p cnt annotSz)
  show ?case
  proof (cases "p = e \<or> length m \<le> p")
    case True
    then show ?thesis
      by (subst parseAnnot_loop.simps) auto
  next
    case stop: False
    show ?thesis
    proof (cases "m ! p = bar \<or> m ! p = soh")
      case True
      show ?thesis
      proof (cases "cnt - 1 = 0")
        case c0: True
        with stop True show ?thesis
          by (subst parseAnnot_loop.simps) auto
      next
        case False
        from "1.IH"(1) [OF stop True False] "1.prems"
        have "min (annotSz - 1) (int (Suc p) - int i) \<le> parseAnnot_loop m i e (Suc p) (cnt - 1) annotSz"
          by simp
        with stop True False show ?thesis
          by (subst parseAnnot_loop.simps) auto
      qed
    next
      case False
      from "1.IH"(2) [OF stop False] "1.prems"
      have "min (annotSz - 1) (int (Suc p) - int i) \<le> parseAnnot_loop m i e (Suc p) cnt annotSz"
        by simp
      with stop False show ?thesis
        by (subst parseAnnot_loop.simps) auto
    qed
  qed
qed

lemma parseAnnot_pos:
  assumes "m ! i = gt" "2 \<le> annotSz"
  shows "1 \<le> parseAnnot cnt annotSz m i e"
proof (cases "i = e \<or> length m \<le> i")
  case True
  with assms show ?thesis
    by (simp add: parseAnnot_def parseAnnot_loop.simps [of m i e i])
next
  case False
  from parseAnnot_loop_ge [of i "Suc i" annotSz m e cnt] assms
  have "1 \<le> parseAnnot_loop m i e (Suc i) cnt annotSz"
    by simp
  with False assms show ?thesis
    by (simp add: parseAnnot_def parseAnnot_loop.simps [of m i e i])
qed

lemma fwrite_exact:
  "0 \<le> n \<Longrightarrow> bytesWritten (fwrite bs n s) = bytesWritten s + n
     \<and> int (length (out (fwrite bs n s))) = int (length (out s)) + n
     \<and> take (length (out s)) (out (fwrite bs n s)) = out s"
  by (simp add: fwrite_def Let_def)

lemma hits_loop_marked:
  "hits_loop ac hl i m ia e cv = (sel, m', ia', cv') \<Longrightarrow>
     cv' = cv \<or> (\<exists>k<length hl. cv' = cv[k := 1])"
proof (induction ac hl i m ia e cv rule: hits_loop.induct)
  case (1 ac hl i m ia e cv)
  from "1.prems" show ?case
    by (subst (asm) hits_loop.simps)
       (auto split: if_splits option.splits dest!: "1.IH" [rotated -1])
qed

lemma extract_record_cases [consumes 1, case_names parse_error skipped selected]:
  assumes "extract_record a h s = r"
  obtains
    (parse_error) s' where "r = Break s'" "same_counters s s'" "charVect s' = charVect s"
  | (skipped) s' where "r = Continue s'" "same_counters s s'" "marked h (charVect s) (charVect s')"
  | (selected) s2 annotSz rawSeqSz where "r = write_selected a annotSz rawSeqSz s2"
      "2 \<le> annotSz" "1 \<le> rawSeqSz" "mem s2 ! iaq s2 = gt"
      "same_counters s s2" "marked h (charVect s) (charVect s2)"
proof (cases "getAnnot (mem s) (fptr s) (fsq s)")
  case None
  with assms have "r = Break s \<or> (\<exists>i. r = Break (s\<lparr>iaq := i\<rparr>))"
    by (auto simp: extract_record_def split: option.splits)
  then show ?thesis
  proof
    assume "r = Break s"
    then show ?thesis
      by (intro parse_error [of s]) (simp_all add: same_counters_def)
  next
    assume "\<exists>i. r = Break (s\<lparr>iaq := i\<rparr>)"
    then obtain i where "r = Break (s\<lparr>iaq := i\<rparr>)" ..
    then show ?thesis
      by (intro parse_error [of "s\<lparr>iaq := i\<rparr>"]) (simp_all add: same_counters_def)
  qed
next
  case (Some ie)
  obtain i e where ie: "ie = (i, e)" by (cases ie)
  note ga = getAnnot_Some [OF Some [unfolded ie]]
  show ?thesis
  proof (cases "getSequence (mem s) (fptr s) e")
    case None
    with assms Some ie have "r = Break (s\<lparr>iaq := i, faq := e, isq := e, fsq := e\<rparr>)"
      by (simp add: extract_record_def)
    then show ?thesis
      by (intro parse_error [of "s\<lparr>iaq := i, faq := e, isq := e, fsq := e\<rparr>"])
         (simp_all add: same_counters_def)
  next
    case gs: (Some bqn)
    obtain b q n where bqn: "bqn = (b, q, n)" by (cases bqn)
    note gsq = getSequence_Some [OF gs [unfolded bqn]]
    define s1 where "s1 = s\<lparr>iaq := i, faq := e, isq := b, fsq := q\<rparr>"
    define annotSz where "annotSz = int e - int i + 1"
    define rawSeqSz where "rawSeqSz = int q - int b + 1"
    from ga have a2: "2 \<le> annotSz" by (simp add: annotSz_def)
    from gsq have r1: "1 \<le> rawSeqSz" by (simp add: rawSeqSz_def)
    show ?thesis
    proof (cases "lookup_mode h")
      case lookup: True
      obtain sel m' i' cv' where
        hl: "hits_loop (annotCnt a) (hitList h) 0 (mem s1) i e (charVect s1) = (sel, m', i', cv')"
        by (cases "hits_loop (annotCnt a) (hitList h) 0 (mem s1) i e (charVect s1)")
      define s2 where "s2 = s1\<lparr>mem := m', iaq := i', charVect := cv'\<rparr>"
      from hits_loop_gt [OF hl] ga have g2: "mem s2 ! iaq s2 = gt"
        by (simp add: s2_def s1_def)
      from hits_loop_marked [OF hl] have mk: "marked h (charVect s) (charVect s2)"
        by (simp add: marked_def s2_def s1_def)
      have sc: "same_counters s s2"
        by (simp add: same_counters_def s2_def s1_def)
      from assms [symmetric] Some ie gs bqn hl lookup
      have r: "r = (if sel then write_selected a annotSz rawSeqSz s2 else Continue s2)"
        by (simp add: extract_record_def Let_def s1_def s2_def annotSz_def rawSeqSz_def)
      show ?thesis
      proof (cases sel)
        case True
        with r selected [OF _ a2 r1 g2 sc mk] show ?thesis by simp
      next
        case False
        with r skipped [OF _ sc mk] show ?thesis by simp
      qed
    next
      case normal: False
      from ga have g1: "mem s1 ! iaq s1 = gt"
        by (simp add: s1_def)
      have mk: "marked h (charVect s) (charVect s1)"
        by (simp add: marked_def s1_def)
      have sc: "same_counters s s1"
        by (simp add: same_counters_def s1_def)
      from assms [symmetric] Some ie gs bqn normal
      have r: "r = (if normal_select a n then write_selected a annotSz rawSeqSz s1 else Continue s1)"
        by (simp add: extract_record_def Let_def s1_def annotSz_def rawSeqSz_def)
      show ?thesis
      proof (cases "normal_select a n")
        case True
        with r selected [OF _ a2 r1 g1 sc mk] show ?thesis by simp
      next
        case False
        with r skipped [OF _ sc mk] show ?thesis by simp
      qed
    qed
  qed
qed

lemma extract_step_cases [consumes 1, case_names quota_seq quota_hits parsed]:
  assumes "extract_step a h np s = r"
  obtains
    (quota_seq) "np = 1" "xCnt s = seqCnt a" "r = Break (s\<lparr>doneFlag := True\<rparr>)"
  | (quota_hits) "np = 1" "lookup_mode h" "xCnt s = int (htotal h)"
      "r = Break (s\<lparr>doneFlag := True\<rparr>)"
  | (parsed) "extract_record a h s = r" "\<not> (np = 1 \<and> xCnt s = seqCnt a)"
      "\<not> (np = 1 \<and> lookup_mode h \<and> xCnt s = int (htotal h))"
proof (cases "np = 1 \<and> xCnt s = seqCnt a")
  case True
  with assms quota_seq show ?thesis
    by (simp add: extract_step_def)
next
  case q1: False
  show ?thesis
  proof (cases "np = 1 \<and> lookup_mode h \<and> xCnt s = int (htotal h)")
    case True
    with assms q1 quota_hits show ?thesis
      by (simp add: extract_step_def)
  next
    case q2: False
    have "extract_step a h np s = extract_record a h s"
      by (simp only: extract_step_def q1 q2 if_False)
    with assms parsed q1 q2 show ?thesis
      by simp
  qed
qed

lemma extractQueries_inv:
  "(\<And>s s'. I s \<Longrightarrow> extract_step a h np s = Continue s' \<Longrightarrow> I s') \<Longrightarrow>
   (\<And>s s'. I s \<Longrightarrow> extract_step a h np s = Break s' \<Longrightarrow> I s') \<Longrightarrow>
   I s \<Longrightarrow> I (extractQueries a h np s)"
proof (induction a h np s rule: extractQueries.induct)
  case (1 a h np s)
  show ?case
  proof (cases "extract_step a h np s")
    case (Continue s')
    have "I s'"
      using "1.prems"(3) Continue by (rule "1.prems"(1))
    with Continue "1.prems"(1,2) have "I (extractQueries a h np s')"
      by (intro "1.IH")
    with Continue show ?thesis
      by (simp add: extractQueries.simps [of a h np s])
  next
    case (Break s')
    from "1.prems"(2) [OF "1.prems"(3) Break] Break show ?thesis
      by (simp add: extractQueries.simps [of a h np s])
  qed
qed

lemma extract_region_inv:
  assumes "\<And>s s'. I s \<Longrightarrow> extract_step a h np s = Continue s' \<Longrightarrow> I s'"
    and "\<And>s s'. I s \<Longrightarrow> extract_step a h np s = Break s' \<Longrightarrow> I s'"
    and "\<And>s m f. I s \<Longrightarrow> I (s\<lparr>mem := m, fptr := f, iaq := 0, faq := 0, isq := 0, fsq := 0\<rparr>)"
    and "I s"
  shows "I (extract_region a h np m f s)"
  unfolding extract_region_def
  by (rule extractQueries_inv [where I = I, OF assms(1) assms(2)]) (auto intro: assms)

lemma partQueryFile_body_inv:
  assumes "\<And>s m f. I s \<Longrightarrow> I (extract_region a h np m f s)"
    and "partQueryFile_body a h np fl fo rank psz qfsz msz nmaps nmap bs = r"
    and "r = Inl s' \<or> r = Inr (buf', s')"
    and "I (snd bs)"
  shows "I s'"
  using assms(2,3,4)
  by (auto simp: partQueryFile_body_def Let_def intro!: assms(1)
      split: option.splits prod.splits if_splits)

lemma partQueryFile_loop_inv:
  "(\<And>s m f. I s \<Longrightarrow> I (extract_region a h np m f s)) \<Longrightarrow> I (snd bs) \<Longrightarrow>
    I (snd (partQueryFile_loop a h np fl fo rank psz qfsz msz nmaps nmap bs))"
proof (induction a h np fl fo rank psz qfsz msz nmaps nmap bs rule: partQueryFile_loop.induct)
  case (1 a h np fl fo rank psz qfsz msz nmaps nmap bs)
  show ?case
  proof (cases "nmap < nmaps \<and> \<not> doneFlag (snd bs)")
    case False
    with "1.prems"(2) show ?thesis
      by (simp add: partQueryFile_loop_stop)
  next
    case True
    show ?thesis
    proof (cases "partQueryFile_body a h np fl fo rank psz qfsz msz nmaps nmap bs")
      case (Inl s')
      from partQueryFile_body_inv [where I = I, OF "1.prems"(1) Inl _ "1.prems"(2), of s']
      have "I s'" by simp
      with True Inl show ?thesis
        by (simp add: partQueryFile_loop_error)
    next
      case (Inr bs')
      from partQueryFile_body_inv [where I = I, OF "1.prems"(1) Inr _ "1.prems"(2),
          of "snd bs'" "fst bs'"]
      have "I (snd bs')" by simp
      with True Inr "1.prems"(1)
      have "I (snd (partQueryFile_loop a h np fl fo rank psz qfsz msz nmaps (nmap + 1) bs'))"
        by (intro "1.IH") auto
      with True Inr show ?thesis
        by (simp add: partQueryFile_loop_step)
    qed
  qed
qed

lemma partQueryFile_inv:
  assumes "\<And>s s'. I s \<Longrightarrow> extract_step a h np s = Continue s' \<Longrightarrow> I s'"
    and "\<And>s s'. I s \<Longrightarrow> extract_step a h np s = Break s' \<Longrightarrow> I s'"
    and "\<And>s m f. I s \<Longrightarrow> I (s\<lparr>mem := m, fptr := f, iaq := 0, faq := 0, isq := 0, fsq := 0\<rparr>)"
    and "I (scan_init h)"
  shows "I (snd (partQueryFile imapLimit psz a h np rank fl fo))"
  unfolding partQueryFile_def Let_def
  by (rule partQueryFile_loop_inv [where I = I])
     (auto intro: extract_region_inv [where I = I] assms)

lemma write_selected_budget:
  assumes "write_selected a annotSz rawSeqSz s2 = r" "r = Continue s' \<or> r = Break s'"
    and "2 \<le> annotSz" "1 \<le> rawSeqSz" "mem s2 ! iaq s2 = gt"
    and "budget a np s2" "\<not> (np = 1 \<and> xCnt s2 = seqCnt a)"
  shows "budget a np s'"
proof -
  define p where "p = parseAnnot (abs (annotCnt a)) annotSz (mem s2) (iaq s2) (faq s2)"
  from assms(3,5) have p1: "1 \<le> p"
    by (simp add: p_def parseAnnot_pos)
  note w = fwrite_exact [THEN conjunct1] fwrite_exact [THEN conjunct2, THEN conjunct1]
  from p1 assms(3,4) have nn: "0 \<le> p" "0 \<le> p - 1" "0 \<le> annotSz" "0 \<le> rawSeqSz"
    "0 \<le> annotSz + rawSeqSz" "(0::int) \<le> 1"
    by simp_all
  from assms(1,2,6,7) nn show ?thesis
    by (auto simp: write_selected_def Let_def budget_def p_def [symmetric] w
        split: if_splits)
qed

lemma extract_step_budget:
  assumes "extract_step a h np s = r" "r = Continue s' \<or> r = Break s'" "budget a np s"
  shows "budget a np s'"
  using assms(1)
proof (cases rule: extract_step_cases)
  case quota_seq
  with assms show ?thesis by (auto simp: budget_def)
next
  case quota_hits
  with assms show ?thesis by (auto simp: budget_def)
next
  case parsed
  from parsed(1) show ?thesis
  proof (cases rule: extract_record_cases)
    case (parse_error s1)
    with assms show ?thesis by (auto simp: budget_def same_counters_def)
  next
    case (skipped s1)
    with assms show ?thesis by (auto simp: budget_def same_counters_def)
  next
    case (selected s2 annotSz rawSeqSz)
    from selected(5) assms(3) parsed(2)
    have "budget a np s2" "\<not> (np = 1 \<and> xCnt s2 = seqCnt a)"
      by (auto simp: budget_def same_counters_def)
    from write_selected_budget [OF selected(1) [symmetric] assms(2) selected(2,3,4) this]
    show ?thesis .
  qed
qed

lemma partQueryFile_budget:
  assumes "0 \<le> bytesLimit a" "0 \<le> seqCnt a"
  shows "budget a np (snd (partQueryFile imapLimit psz a h np rank fl fo))"
proof (rule partQueryFile_inv [where I = "budget a np"])
  fix s s' assume "budget a np s" "extract_step a h np s = Continue s'"
  then show "budget a np s'"
    by (intro extract_step_budget [of a h np s "Continue s'" s']) auto
next
  fix s s' assume "budget a np s" "extract_step a h np s = Break s'"
  then show "budget a np s'"
    by (intro extract_step_budget [of a h np s "Break s'" s']) auto
next
  fix s m f assume "budget a np s"
  then show "budget a np (s\<lparr>mem := m, fptr := f, iaq := 0, faq := 0, isq := 0, fsq := 0\<rparr>)"
    by (simp add: budget_def)
next
  from assms show "budget a np (scan_init h)"
    by (simp add: budget_def scan_init_def)
qed

lemma alt_loop_None:
  "alt_loop m e h paq = None \<Longrightarrow> paq \<le> e \<Longrightarrow> e < length m \<Longrightarrow>
     \<not> list_ex (\<lambda>p. m ! p = soh \<and> strncmp_hit h m (Suc p)) [Suc paq..<Suc e]"
proof (induction m e h paq rule: alt_loop.induct)
  case (1 m e h paq)
  show ?case
  proof (cases "paq = e")
    case True
    then show ?thesis by simp
  next
    case False
    with "1.prems" have lt: "paq < e" "Suc paq < length m" by auto
    with "1.prems"(1) have
      no: "\<not> (m ! Suc paq = soh \<and> strncmp_hit h m (Suc (Suc paq)))"
      and rest: "alt_loop m e h (Suc paq) = None"
      by (subst (asm) alt_loop.simps; auto split: if_splits)+
    from lt have "\<not> (paq = e \<or> length m \<le> Suc paq)" by auto
    from "1.IH" [OF this no rest] lt "1.prems"
    have "\<not> list_ex (\<lambda>p. m ! p = soh \<and> strncmp_hit h m (Suc p)) [Suc (Suc paq)..<Suc e]"
      by simp
    moreover from lt have "[Suc paq..<Suc e] = Suc paq # [Suc (Suc paq)..<Suc e]"
      by (simp add: upt_conv_Cons)
    ultimately show ?thesis
      using no by simp
  qed
qed

lemma alt_loop_match:
  "alt_loop m e h paq = Some r \<Longrightarrow> paq \<le> e \<Longrightarrow>
     paq < r \<and> r \<le> e \<and> m ! r = soh \<and> strncmp_hit h m (Suc r)"
proof (induction m e h paq rule: alt_loop.induct)
  case (1 m e h paq)
  from "1.prems"(1) have stop: "\<not> (paq = e \<or> length m \<le> Suc paq)"
    by (subst (asm) alt_loop.simps) (auto split: if_splits)
  show ?case
  proof (cases "m ! Suc paq = soh \<and> strncmp_hit h m (Suc (Suc paq))")
    case True
    with stop "1.prems" show ?thesis
      by (subst (asm) alt_loop.simps) auto
  next
    case False
    with stop "1.prems"(1) have "alt_loop m e h (Suc paq) = Some r"
      by (subst (asm) alt_loop.simps) auto
    from "1.IH" [OF stop False this] stop "1.prems"(2) show ?thesis
      by auto
  qed
qed

lemma alt_loop_hit_match:
  assumes "ia \<le> e" "e < length m"
  shows "hit_match m ia e h = (strncmp_hit h m (Suc ia) \<or> alt_loop m e h ia \<noteq> None)"
proof (cases "alt_loop m e h ia")
  case None
  from alt_loop_None [OF None assms] None show ?thesis
    by (simp add: hit_match_def)
next
  case (Some r)
  from alt_loop_match [OF Some assms(1)]
  have "list_ex (\<lambda>p. m ! p = soh \<and> strncmp_hit h m (Suc p)) [Suc ia..<Suc e]"
    by (auto simp: list_ex_iff intro!: bexI [of _ r])
  with Some show ?thesis
    by (simp add: hit_match_def)
qed

lemma hits_loop_first_match:
  "hits_loop ac hl i0 m ia e cv = (sel, m', ia', cv') \<Longrightarrow> ia \<le> e \<Longrightarrow> e < length m \<Longrightarrow>
     (\<not> sel \<and> cv' = cv \<and> (\<forall>k. i0 \<le> k \<and> k < length hl \<longrightarrow> \<not> hit_match m ia e (hl ! k)))
     \<or> (sel \<and> (\<exists>k. i0 \<le> k \<and> k < length hl \<and> hit_match m ia e (hl ! k)
                  \<and> (\<forall>j. i0 \<le> j \<and> j < k \<longrightarrow> \<not> hit_match m ia e (hl ! j))
                  \<and> cv' = cv[k := 1]))"
proof (induction ac hl i0 m ia e cv rule: hits_loop.induct)
  case (1 ac hl i m ia e cv)
  note hm = alt_loop_hit_match [OF "1.prems"(2,3)]
  show ?case
  proof (cases "i < length hl")
    case False
    with "1.prems"(1) show ?thesis
      by (subst (asm) hits_loop.simps) auto
  next
    case il: True
    show ?thesis
    proof (cases "hit_match m ia e (hl ! i)")
      case True
      with il "1.prems"(1) have "sel \<and> cv' = cv[i := 1]"
        by (subst (asm) hits_loop.simps) (auto simp: hm split: if_splits option.splits)
      with True il show ?thesis
        by (intro disjI2 conjI exI [of _ i]) auto
    next
      case False
      then have np: "\<not> strncmp_hit (hl ! i) m (Suc ia)" and na: "alt_loop m e (hl ! i) ia = None"
        by (auto simp: hm)
      from il np na "1.prems"(1)
      have "hits_loop ac hl (Suc i) m ia e cv = (sel, m', ia', cv')"
        by (subst (asm) hits_loop.simps) simp
      from "1.IH" [OF il np na this "1.prems"(2,3)]
      show ?thesis
      proof
        assume a: "\<not> sel \<and> cv' = cv \<and> (\<forall>k. Suc i \<le> k \<and> k < length hl \<longrightarrow> \<not> hit_match m ia e (hl ! k))"
        have "\<forall>k. i \<le> k \<and> k < length hl \<longrightarrow> \<not> hit_match m ia e (hl ! k)"
        proof (intro allI impI)
          fix k assume "i \<le> k \<and> k < length hl"
          with a False show "\<not> hit_match m ia e (hl ! k)"
            by (cases "k = i") auto
        qed
        with a show ?thesis by simp
      next
        assume "sel \<and> (\<exists>k. Suc i \<le> k \<and> k < length hl \<and> hit_match m ia e (hl ! k)
                  \<and> (\<forall>j. Suc i \<le> j \<and> j < k \<longrightarrow> \<not> hit_match m ia e (hl ! j))
                  \<and> cv' = cv[k := 1])"
        then obtain k where k: sel "Suc i \<le> k" "k < length hl" "hit_match m ia e (hl ! k)"
          "\<forall>j. Suc i \<le> j \<and> j < k \<longrightarrow> \<not> hit_match m ia e (hl ! j)" "cv' = cv[k := 1]"
          by blast
        have "\<forall>j. i \<le> j \<and> j < k \<longrightarrow> \<not> hit_match m ia e (hl ! j)"
        proof (intro allI impI)
          fix j assume "i \<le> j \<and> j < k"
          with k(5) False show "\<not> hit_match m ia e (hl ! j)"
            by (cases "j = i") auto
        qed
        with k show ?thesis
          by (intro disjI2 conjI exI [of _ k]) auto
      qed
    qed
  qed
qed

lemma write_selected_xCnt:
  "write_selected a annotSz rawSeqSz s = r \<Longrightarrow> r = Continue s' \<or> r = Break s' \<Longrightarrow>
     xCnt s \<le> xCnt s' \<and> xCnt s' \<le> xCnt s + 1 \<and> charVect s' = charVect s"
  by (auto simp: write_selected_def Let_def split: if_splits)

text \<open>An entry of the vector that the master receives.\<close>

lemma mpi_reduce_sum_nth:
  "i < n \<Longrightarrow> mpi_reduce_sum vs n ! i = sum_list (map (\<lambda>v. v ! i) vs)"
  by (simp add: mpi_reduce_sum_def)

section \<open>Trimming and adjusting a window\<close>





section \<open>C1: the filter on exact lengths and ranges\<close>

text \<open>
  C1. The claim: in filter mode, with at least one exact length or range configured, a
  record is accepted if and only if its sequence length equals one of the up to five
  exact lengths or lies in one of the up to five ranges. The manual page says the same
  of \<^verbatim>\<open>-l\<close>. The code compares with the first exact length and the first range only:
  the loop conditions \<^verbatim>\<open>(i < args->seqLenBuf) && (args->seqLen[i] == seqSz)\<close> end the
  loops at the first length that differs. With \<^verbatim>\<open>-l 6 -l 4\<close> the command line is
  accepted, both lengths are stored, and of the two records of the example file only
  \<open>r2\<close> (6 sequence bytes) is written; \<open>r1\<close> (4 sequence bytes) is not.
\<close>

theorem C1_only_first_length_is_compared:
  "fst (parseCmdline opts_two_lengths) = 0
   \<and> take 2 (seqLen (snd (parseCmdline opts_two_lengths))) = [6, 4]
   \<and> out (snd (partQueryFile IMAP_LIMIT PAGE_SIZE (snd (parseCmdline opts_two_lengths)) no_hits 1 0
               fasta_r1r2 (plan1 (length fasta_r1r2)))) = fasta_r2"
  by code_simp

section \<open>C2: the lookup predicate\<close>

text \<open>
  C2, as claimed: in lookup mode a record is accepted if and only if an ID of its
  header list is bytewise equal to an indexed hit ID. The code compares
  \<^verbatim>\<open>strlen(hitList[i])\<close> bytes of the header with the hit ID, so a header ID that only
  begins with a hit ID is accepted too: with the hit IDs \<open>h1\<close> and \<open>h2\<close>, the record
  whose only header ID is \<open>h10\<close> is written. Nor does the comparison stop at a \<open>|\<close>:
  the hit ID \<open>gi|7|ref|X\<close> of a BLAST table selects the record whose header begins with
  these bytes, and whose first ID in the sense of the claim is \<open>gi\<close>.
\<close>

theorem C2_prefix_of_header_id_is_accepted:
  "getAnnot fasta_h10 11 0 = Some (0, 6)
   \<and> spec_header_ids (record_header fasta_h10 0 6) = [''h10'']
   \<and> \<not> spec_lookup (hitList hits_h12) (record_header fasta_h10 0 6)
   \<and> out (snd (partQueryFile IMAP_LIMIT PAGE_SIZE args_default hits_h12 1 0 fasta_h10
             (plan1 (length fasta_h10)))) = fasta_h10
   \<and> getAnnot fasta_gi 21 0 = Some (0, 16)
   \<and> spec_header_ids (record_header fasta_gi 0 16) = [''gi'']
   \<and> \<not> spec_lookup (hitList hits_gi) (record_header fasta_gi 0 16)
   \<and> out (snd (partQueryFile IMAP_LIMIT PAGE_SIZE args_default hits_gi 1 0 fasta_gi
             (plan1 (length fasta_gi)))) = fasta_gi"
  by code_simp

text \<open>
  An ID of the header list is a prefix of the header bytes at its place, so a hit ID
  that is equal to it matches there.
\<close>

lemma takeWhile_take_prefix:
  "x = takeWhile P (take n ys) \<Longrightarrow> take (length x) ys = x"
proof -
  assume x: "x = takeWhile P (take n ys)"
  have "length x \<le> length (take n ys)"
    unfolding x by (rule length_takeWhile_le)
  then have le: "length x \<le> n" by simp
  have "x = take (length x) (take n ys)"
    unfolding x by (rule takeWhile_eq_take)
  also from le have "\<dots> = take (length x) ys"
    by (simp add: min_def)
  finally show ?thesis by simp
qed

lemma spec_lookup_hit_match:
  assumes "i < e" "e < length m" "x \<in> set (spec_header_ids (record_header m i e))"
  shows "hit_match m i e x"
proof -
  let ?hdr = "record_header m i e"
  from assms(1,2) have len: "length ?hdr = e - Suc i"
    by (simp add: record_header_def)
  from assms(3) consider (first) "x = spec_id ?hdr"
    | (alt) p where "p < length ?hdr" "?hdr ! p = soh" "x = spec_id (drop (Suc p) ?hdr)"
    by (auto simp: spec_header_ids_def)
  then show ?thesis
  proof cases
    case first
    then have "take (length x) (drop (Suc i) m) = x"
      by (intro takeWhile_take_prefix [where n = "e - Suc i"])
         (simp add: spec_id_def record_header_def)
    then show ?thesis
      by (simp add: hit_match_def strncmp_hit_def)
  next
    case alt
    from alt(1) len have pe: "Suc i + p < e" by simp
    from assms(1,2) have "Suc i \<le> length m" by simp
    with alt(1,2) have s: "m ! (Suc i + p) = soh"
      by (simp add: record_header_def)
    have "drop (Suc p) ?hdr = take (e - Suc i - Suc p) (drop (Suc (Suc i + p)) m)"
      by (simp add: record_header_def drop_take add.commute)
    with alt(3) have "take (length x) (drop (Suc (Suc i + p)) m) = x"
      by (intro takeWhile_take_prefix [where n = "e - Suc i - Suc p"]) (simp add: spec_id_def)
    with s pe have "list_ex (\<lambda>p. m ! p = soh \<and> strncmp_hit x m (Suc p)) [Suc i..<Suc e]"
      by (auto simp: list_ex_iff strncmp_hit_def intro!: bexI [of _ "Suc i + p"])
    then show ?thesis
      by (simp add: hit_match_def)
  qed
qed

lemma extract_record_lookup:
  assumes lk: "lookup_mode h"
    and ga: "getAnnot (mem s) (fptr s) (fsq s) = Some (i, e)"
    and gs: "getSequence (mem s) (fptr s) e = Some (b, q, n)"
  shows "((\<exists>k<htotal h. hit_match (mem s) i e (hitList h ! k)) \<longrightarrow>
            (\<exists>s2. extract_record a h s
                     = write_selected a (int e - int i + 1) (int q - int b + 1) s2
                   \<and> same_counters s s2))
         \<and> (\<not> (\<exists>k<htotal h. hit_match (mem s) i e (hitList h ! k)) \<longrightarrow>
            (\<exists>s2. extract_record a h s = Continue s2 \<and> same_counters s s2))"
proof -
  define s1 where "s1 = s\<lparr>iaq := i, faq := e, isq := b, fsq := q\<rparr>"
  obtain sel m' i' cv' where
    hl: "hits_loop (annotCnt a) (hitList h) 0 (mem s) i e (charVect s) = (sel, m', i', cv')"
    by (cases "hits_loop (annotCnt a) (hitList h) 0 (mem s) i e (charVect s)")
  define s2 where "s2 = s1\<lparr>mem := m', iaq := i', charVect := cv'\<rparr>"
  from getAnnot_Some [OF ga] have b: "i \<le> e" "e < length (mem s)" by auto
  from hits_loop_first_match [OF hl b]
  have sel: "sel = (\<exists>k<htotal h. hit_match (mem s) i e (hitList h ! k))"
    by (auto simp: htotal_def)
  have sc: "same_counters s s2"
    by (simp add: same_counters_def s2_def s1_def)
  from lk ga gs hl
  have "extract_record a h s
          = (if sel then write_selected a (int e - int i + 1) (int q - int b + 1) s2 else Continue s2)"
    by (simp add: extract_record_def Let_def s1_def s2_def)
  with sel sc show ?thesis
    by auto
qed

text \<open>
  C2, amended: in lookup mode a parsed record is accepted if and only if the bytes of
  some indexed hit ID stand in its header right after the \<open>>\<close> or right after an SOH
  byte (\<open>hit_match\<close>). An accepted record goes on to be written (\<open>write_selected\<close>);
  a record that is not accepted is passed over and nothing is written or counted.
  Every record that the claimed predicate accepts is accepted.
\<close>

theorem C2_lookup_accepts_hit_prefix:
  assumes "lookup_mode h"
    and "getAnnot (mem s) (fptr s) (fsq s) = Some (i, e)"
    and "getSequence (mem s) (fptr s) e = Some (b, q, n)"
  shows "((\<exists>k<htotal h. hit_match (mem s) i e (hitList h ! k)) \<longrightarrow>
            (\<exists>s2. extract_record a h s
                     = write_selected a (int e - int i + 1) (int q - int b + 1) s2
                   \<and> same_counters s s2))
         \<and> (\<not> (\<exists>k<htotal h. hit_match (mem s) i e (hitList h ! k)) \<longrightarrow>
            (\<exists>s2. extract_record a h s = Continue s2 \<and> same_counters s s2))
         \<and> (spec_lookup (hitList h) (record_header (mem s) i e) \<longrightarrow>
            (\<exists>k<htotal h. hit_match (mem s) i e (hitList h ! k)))"
proof -
  from getAnnot_Some [OF assms(2)] have b: "i < e" "e < length (mem s)"
    by auto
  have "\<exists>k<htotal h. hit_match (mem s) i e (hitList h ! k)"
    if "spec_lookup (hitList h) (record_header (mem s) i e)"
  proof -
    from that obtain x where x: "x \<in> set (spec_header_ids (record_header (mem s) i e))"
      "x \<in> set (hitList h)"
      by (auto simp: spec_lookup_def list_ex_iff)
    from x(2) obtain k where "k < length (hitList h)" "hitList h ! k = x"
      by (auto simp: in_set_conv_nth)
    with spec_lookup_hit_match [OF b x(1)] show ?thesis
      by (auto simp: htotal_def)
  qed
  with extract_record_lookup [OF assms, of a] show ?thesis
    by blast
qed

theorem C2_lookup_accepts_hit_prefix_witness:
  "lookup_mode hits_h12
   \<and> getAnnot (mem scan_h1a) (fptr scan_h1a) (fsq scan_h1a) = Some (0, 5)
   \<and> getSequence (mem scan_h1a) (fptr scan_h1a) 5 = Some (6, 8, 2)
   \<and> spec_lookup (hitList hits_h12) (record_header (mem scan_h1a) 0 5)
   \<and> (\<exists>k<htotal hits_h12. hit_match (mem scan_h1a) 0 5 (hitList hits_h12 ! k))
   \<and> (\<exists>s2. extract_record args_default hits_h12 scan_h1a
               = write_selected args_default (int 5 - int 0 + 1) (int 8 - int 6 + 1) s2
             \<and> same_counters scan_h1a s2)"
proof -
  have lk: "lookup_mode hits_h12"
    by code_simp
  have ga: "getAnnot (mem scan_h1a) (fptr scan_h1a) (fsq scan_h1a) = Some (0, 5)"
    by code_simp
  have gs: "getSequence (mem scan_h1a) (fptr scan_h1a) 5 = Some (6, 8, 2)"
    by code_simp
  have sp: "spec_lookup (hitList hits_h12) (record_header (mem scan_h1a) 0 5)"
    by code_simp
  from C2_lookup_accepts_hit_prefix [OF lk ga gs, of args_default] sp
  have "(\<exists>k<htotal hits_h12. hit_match (mem scan_h1a) 0 5 (hitList hits_h12 ! k))
   \<and> (\<exists>s2. extract_record args_default hits_h12 scan_h1a
               = write_selected args_default (int 5 - int 0 + 1) (int 8 - int 6 + 1) s2
             \<and> same_counters scan_h1a s2)"
    by blast
  with lk ga gs sp show ?thesis
    by blast
qed

section \<open>C3: the byte limit and the limit on the number of records\<close>


section \<open>C4: the characteristic vector\<close>















section \<open>C5: the report of the hit IDs that were not found\<close>

text \<open>The loop of the master appends, in index order, the IDs whose summed entry is 0.\<close>

lemma notFound_loop_eq:
  "notFound_loop hl av i n fl
     = fl @ concat (map (\<lambda>j. hl ! j @ [nl]) (filter (\<lambda>j. av ! j = 0) [i..<n]))"
proof (induction hl av i n fl rule: notFound_loop.induct)
  case (1 hl av i n fl)
  show ?case
  proof (cases "i < n")
    case True
    then have "[i..<n] = i # [i + 1..<n]"
      by (simp add: upt_conv_Cons)
    with True "1.IH" show ?thesis
      by (subst notFound_loop.simps) simp
  next
    case False
    then show ?thesis
      by (subst notFound_loop.simps) simp
  qed
qed

lemma notFound_file_eq:
  "notFound_loop (hitList h) (mpi_reduce_sum vs (htotal h)) 0 (htotal h) [] = spec_notFound h vs"
proof -
  have "filter (\<lambda>j. mpi_reduce_sum vs (htotal h) ! j = 0) [0..<htotal h]
        = filter (\<lambda>i. sum_list (map (\<lambda>v. v ! i) vs) = 0) [0..<htotal h]"
    by (rule filter_cong) (simp_all add: mpi_reduce_sum_nth)
  then show ?thesis
    by (simp add: notFound_loop_eq spec_notFound_def)
qed

lemma sint32_small: "n < 2 ^ 31 \<Longrightarrow> sint (word_of_nat n :: 32 word) = int n"
  by (simp add: signed_of_nat signed_take_bit_int_eq_self)

text \<open>
  C5. In lookup mode worker 0 sums the characteristic vectors of the workers element
  by element and writes to \<^verbatim>\<open><output>.notFound\<close> exactly the indexed hit IDs whose
  summed entry is 0, one per line in index order; the file is removed if it ends up
  empty. In the model: when the file can be opened the function returns 0; no file is
  left when the report is empty; and a report that is not empty is the file that is
  left (the size the code tests is an \<^verbatim>\<open>int\<close>, so this is proved for reports below
  \<open>2^31\<close> bytes).
\<close>

theorem C5_notFound_report:
  assumes "fopen_ok"
  shows "fst (writeHitsNotFound fopen_ok h vs) = 0
     \<and> (spec_notFound h vs = [] \<longrightarrow> snd (writeHitsNotFound fopen_ok h vs) = None)
     \<and> (spec_notFound h vs \<noteq> [] \<and> length (spec_notFound h vs) < 2 ^ 31
          \<longrightarrow> snd (writeHitsNotFound fopen_ok h vs) = Some (spec_notFound h vs))"
  using assms
  by (auto simp: writeHitsNotFound_def Let_def notFound_file_eq sint32_small)

theorem C5_notFound_report_witness:
  "spec_notFound hits_h123 [[1, 0, 0], [0, 0, 1]] = ''h2'' @ [nl]
   \<and> writeHitsNotFound True hits_h123 [[1, 0, 0], [0, 0, 1]] = (0, Some (''h2'' @ [nl]))
   \<and> spec_notFound hits_h123 [[1, 1, 0], [0, 1, 1]] = []
   \<and> writeHitsNotFound True hits_h123 [[1, 1, 0], [0, 1, 1]] = (0, None)"
proof -
  have a: "spec_notFound hits_h123 [[1, 0, 0], [0, 0, 1]] = ''h2'' @ [nl]"
    by code_simp
  have b: "spec_notFound hits_h123 [[1, 1, 0], [0, 1, 1]] = []"
    by code_simp
  from a have c: "spec_notFound hits_h123 [[1, 0, 0], [0, 0, 1]] \<noteq> []
      \<and> length (spec_notFound hits_h123 [[1, 0, 0], [0, 0, 1]]) < 2 ^ 31"
    by simp
  from C5_notFound_report [of True hits_h123 "[[1, 0, 0], [0, 0, 1]]"] c
  have "writeHitsNotFound True hits_h123 [[1, 0, 0], [0, 0, 1]]
          = (0, Some (spec_notFound hits_h123 [[1, 0, 0], [0, 0, 1]]))"
    by (simp add: prod_eq_iff)
  moreover from C5_notFound_report [of True hits_h123 "[[1, 1, 0], [0, 1, 1]]"] b
  have "writeHitsNotFound True hits_h123 [[1, 1, 0], [0, 1, 1]] = (0, None)"
    by (simp add: prod_eq_iff)
  ultimately show ?thesis
    using a b by simp
qed

section \<open>C6: the plan covers the file\<close>

text \<open>
  C6. For every file size, every requested number of workers \<open>N \<ge> 1\<close> and every page
  size, the partitioner returns \<open>N'\<close> entries with \<open>1 \<le> N' \<le> N\<close> whose lengths sum to
  the size of the file and whose ranges are contiguous: the first begins at offset 0
  and each of the others begins where the one before it ends. The model never
  signals the hard error (the only values \<^verbatim>\<open>setOffsQueryFile\<close> returns are 0 and 2), so
  the first alternative of the claim always holds.
\<close>

theorem C6_partition_covers_file:
  assumes "1 \<le> N"
  shows "\<exists>N' fo. setOffs fl P buf0 N = (int N', fo) \<and> 1 \<le> N' \<and> N' \<le> N
           \<and> fo ! 0 = 0 \<and> fo ! 1 = 0
           \<and> (\<forall>i. 0 < i \<and> i < N' \<longrightarrow> part_begin fo i = part_end fo (i - 1))
           \<and> (\<Sum>i<N'. part_len fo i) = int (length fl)"
proof -
  obtain r fo where res: "setOffs fl P buf0 N = (r, fo)"
    by (cases "setOffs fl P buf0 N")
  from setOffs_plan [OF assms res]
  obtain N' where n: "r = int N'" "1 \<le> N'" "N' \<le> N" "chain fo N'"
    "part_end fo (N' - 1) = int (length fl)"
    by blast
  from n chain_sum [of fo N'] have "(\<Sum>i<N'. part_len fo i) = int (length fl)"
    by simp
  with n res show ?thesis
    by (intro exI [of _ N'] exI [of _ fo]) (simp add: chain_def)
qed

theorem C6_partition_covers_file_witness:
  "(1::nat) \<le> 5
   \<and> setOffs fasta_four 4 (replicate 4 (CHR ''x'')) 5 = (3, plan_four)
   \<and> plan_four ! 0 = 0 \<and> plan_four ! 1 = 0
   \<and> part_begin plan_four 1 = part_end plan_four 0
   \<and> part_begin plan_four 2 = part_end plan_four 1
   \<and> (\<Sum>i<3. part_len plan_four i) = int (length fasta_four)"
proof -
  have ev: "setOffs fasta_four 4 (replicate 4 (CHR ''x'')) 5 = (3, plan_four)"
    by code_simp
  from C6_partition_covers_file [of 5 fasta_four 4 "replicate 4 (CHR ''x'')"]
  obtain N' fo where p: "setOffs fasta_four 4 (replicate 4 (CHR ''x'')) 5 = (int N', fo)"
    "fo ! 0 = 0" "fo ! 1 = 0"
    "\<forall>i. 0 < i \<and> i < N' \<longrightarrow> part_begin fo i = part_end fo (i - 1)"
    "(\<Sum>i<N'. part_len fo i) = int (length fasta_four)"
    by auto
  from p(1) ev have eq: "N' = 3" "fo = plan_four"
    by simp_all
  from p(4) eq have "part_begin plan_four 1 = part_end plan_four 0"
    "part_begin plan_four 2 = part_end plan_four 1"
    by auto
  with p eq ev show ?thesis
    by simp
qed

section \<open>C7: where the partitions start\<close>

text \<open>
  C7. The claim: in a plan for a well-formed input every entry \<open>i > 0\<close> starts at a
  \<open>>\<close> that begins a record. The comment of the code says the same of the backward
  scan (it is to find the beginning of the last query of the window), but the scan
  stops at the first byte \<open>>\<close> and does not look at the byte before it. The file
  \<open>fasta_four\<close> is well-formed in the sense of the specification, and its third header
  line holds a \<open>>\<close> at byte 18. With a page size of 4 and five processes the plan has
  three entries, and the third starts at byte 18: a \<open>>\<close> that is preceded by \<open>x\<close> and
  begins no record. The three processes then write a file in which the record
  \<open>>c x>y\<close> has become \<open>>y\<close>; one process writes the input as it is.
\<close>

theorem C7_start_inside_header:
  "spec_wellformed fasta_four
   \<and> setOffs fasta_four 4 (replicate 4 (CHR ''x'')) 5 = (3, plan_four)
   \<and> part_begin plan_four 2 = 18
   \<and> fasta_four ! 18 = gt
   \<and> fasta_four ! 17 = CHR ''x''
   \<and> \<not> spec_record_start fasta_four (nat (part_begin plan_four 2))
   \<and> map (\<lambda>r. partQueryFile_out 64 4 args_default no_hits 3 r fasta_four plan_four) [0..<3]
       = [(0, ''>a'' @ [nl] @ ''ACGT'' @ [nl]),
          (0, ''>b'' @ [nl] @ ''AC'' @ [nl]),
          (0, ''>y'' @ [nl] @ ''ACGTAC'' @ [nl] @ ''>d'' @ [nl] @ ''ACGTACGTAC'' @ [nl])]
   \<and> partQueryFile_out 64 4 args_default no_hits 1 0 fasta_four (plan1 (length fasta_four))
       = (0, fasta_four)"
  by code_simp

text \<open>
  The backward scan of one page, the page that \<^verbatim>\<open>fread\<close> delivers when it lies inside
  the file, and the scan over the pages of a window: the \<open>>\<close> that is found is a byte
  of the file inside the window.
\<close>

lemma chunk_scan_found:
  "chunk_scan buf n off = (True, off') \<Longrightarrow> \<exists>c<n. buf ! c = gt \<and> off' = off + int (n - c)"
proof (induction n arbitrary: off)
  case 0
  then show ?case by simp
next
  case (Suc n)
  show ?case
  proof (cases "buf ! n = gt")
    case True
    with Suc.prems show ?thesis
      by (intro exI [of _ n]) simp
  next
    case False
    with Suc.prems have "chunk_scan buf n (off + 1) = (True, off')"
      by simp
    from Suc.IH [OF this] obtain c where "c < n" "buf ! c = gt" "off' = off + 1 + int (n - c)"
      by blast
    then show ?thesis
      by (intro exI [of _ c]) (simp add: Suc_diff_le)
  qed
qed

lemma chunk_scan_none:
  "chunk_scan buf n off = (False, off') \<Longrightarrow> off' = off + int n"
proof (induction n arbitrary: off)
  case 0
  then show ?case by simp
next
  case (Suc n)
  from Suc.prems have "chunk_scan buf n (off + 1) = (False, off')"
    by (simp split: if_splits)
  from Suc.IH [OF this] show ?case
    by simp
qed

lemma fread_chunk_nth:
  assumes "0 \<le> r" "nat r + nat P \<le> length fl" "c < nat P"
  shows "fread_chunk fl r P buf ! c = fl ! (nat r + c)"
proof -
  from assms have "length (take (nat P) (drop (nat r) fl)) = nat P"
    by simp
  with assms show ?thesis
    by (simp add: fread_chunk_def Let_def nth_append)
qed

lemma find_seq_beg_sound:
  "find_seq_beg fl P partSz offs j offset buf = Some (offset', buf') \<Longrightarrow> 0 < P \<Longrightarrow> 0 \<le> j \<Longrightarrow>
   offs + partSz - P * j \<le> int (length fl) \<Longrightarrow> offset = P * j \<Longrightarrow>
   P * j < offset' \<and> offset' \<le> offs + partSz \<and> fl ! nat (offs + partSz - offset') = gt"
proof (induction fl P partSz offs j offset buf rule: find_seq_beg.induct)
  case (1 fl P partSz offs j offset buf)
  define readOffs where "readOffs = offs + partSz - P * (j + 1)"
  define buffer' where "buffer' = fread_chunk fl readOffs P buf"
  from "1.prems"(1) have ro: "0 \<le> readOffs"
    by (subst (asm) find_seq_beg.simps) (auto simp: readOffs_def Let_def split: if_splits)
  have rp: "readOffs + P = offs + partSz - P * j"
    by (simp add: readOffs_def algebra_simps)
  with "1.prems" ro have inb: "nat readOffs + nat P \<le> length fl"
    by linarith
  obtain found off2 where cs: "chunk_scan buffer' (nat P) offset = (found, off2)"
    by (cases "chunk_scan buffer' (nat P) offset")
  show ?case
  proof (cases found)
    case True
    with "1.prems"(1,2) ro cs have res: "offset' = off2"
      by (subst (asm) find_seq_beg.simps)
         (simp add: readOffs_def [symmetric] buffer'_def [symmetric] Let_def)
    from cs True have "chunk_scan buffer' (nat P) offset = (True, off2)"
      by simp
    from chunk_scan_found [OF this] obtain c where
      c: "c < nat P" "buffer' ! c = gt" "off2 = offset + int (nat P - c)"
      by blast
    from c(1) fread_chunk_nth [OF ro inb c(1), of buf] c(2)
    have "fl ! (nat readOffs + c) = gt"
      by (simp add: buffer'_def)
    moreover from c "1.prems" res have "offset' = P * j + P - int c"
      by simp
    moreover from this ro c(1) have "nat (offs + partSz - offset') = nat readOffs + c"
      by (simp add: readOffs_def algebra_simps nat_add_distrib)
    ultimately show ?thesis
      using c(1) ro by (simp add: readOffs_def algebra_simps)
  next
    case False
    with "1.prems"(1,2) ro cs
    have rec: "find_seq_beg fl P partSz offs (j + 1) off2 buffer' = Some (offset', buf')"
      by (subst (asm) find_seq_beg.simps)
         (simp add: readOffs_def [symmetric] buffer'_def [symmetric] Let_def)
    from cs False have cs': "chunk_scan buffer' (nat P) offset = (False, off2)"
      by simp
    from chunk_scan_none [OF cs'] "1.prems" have o2: "off2 = P * (j + 1)"
      by (simp add: algebra_simps)
    have "P * (j + 1) < offset' \<and> offset' \<le> offs + partSz
          \<and> fl ! nat (offs + partSz - offset') = gt"
    proof (rule "1.IH" [OF readOffs_def _ buffer'_def cs' [symmetric] _ rec])
      show "\<not> (readOffs < 0 \<or> P \<le> 0)" using ro "1.prems" by simp
      show "False = False" by simp
      show "0 < P" by fact
      show "0 \<le> j + 1" using "1.prems" by simp
      show "offs + partSz - P * (j + 1) \<le> int (length fl)"
        using "1.prems" by (simp add: algebra_simps)
      show "off2 = P * (j + 1)" by fact
    qed
    with "1.prems" show ?thesis
      by (simp add: algebra_simps)
  qed
qed

lemma cuts_extend:
  assumes c: "cuts fl partSz n fo i" and same: "\<And>j. j < i * 3 \<Longrightarrow> fo' ! j = fo ! j"
    and new: "i < n - 1 \<Longrightarrow> 0 \<le> part_end fo' i \<and> part_end fo' i < (int i + 1) * partSz
        \<and> fl ! nat (part_end fo' i) = gt"
  shows "cuts fl partSz n fo' (Suc i)"
  unfolding cuts_def
proof (intro allI impI)
  fix k assume k: "k < Suc i" "k < n - 1"
  show "0 \<le> part_end fo' k \<and> part_end fo' k < (int k + 1) * partSz \<and> fl ! nat (part_end fo' k) = gt"
  proof (cases "k = i")
    case True
    with new k show ?thesis by simp
  next
    case False
    with k have lt: "k < i" by simp
    then have "part_end fo' k = part_end fo k"
      by (intro part_end_cong same) auto
    with c lt k show ?thesis by (simp add: cuts_def)
  qed
qed

text \<open>
  The nominal partition size, and an estimate by which the nominal windows of all
  partitions but the last lie inside the file.
\<close>

lemma int_div_mult_le: "0 < P \<Longrightarrow> P * (x div P) \<le> (x::int)"
proof -
  assume "0 < P"
  then have "0 \<le> x mod P"
    by simp
  moreover have "P * (x div P) + x mod P = x"
    by simp
  ultimately show ?thesis
    by linarith
qed

lemma ceil_div_bounds:
  assumes "0 < n"
  shows "S \<le> n * ceil_div S n \<and> n * ceil_div S n < S + n"
proof -
  define d m where "d = (- S) div n" and "m = (- S) mod n"
  from assms have "0 \<le> m" "m < n"
    by (simp_all add: m_def)
  moreover have "n * d + m = - S"
    by (simp add: d_def m_def)
  moreover have "n * ceil_div S n = - (n * d)"
    by (simp add: ceil_div_def d_def)
  ultimately show ?thesis
    by linarith
qed

lemma ceil_div_nonneg: "0 < n \<Longrightarrow> 0 \<le> S \<Longrightarrow> 0 \<le> ceil_div S n"
  by (simp add: ceil_div_def div_nonpos_pos_le0)

lemma part_size_nonneg: "0 < P \<Longrightarrow> 0 \<le> S \<Longrightarrow> 0 < n \<Longrightarrow> 0 \<le> part_size S n P"
  by (simp add: part_size_def ceil_div_nonneg pos_imp_zdiv_nonneg_iff)

lemma workers_bound:
  assumes P: "0 < P" and n: "2 \<le> n" "n \<le> P + 1" and S: "0 \<le> S"
  shows "(n - 1) * part_size S n P \<le> S"
proof -
  define q where "q = ceil_div S n"
  from n have npos: "0 < n" by simp
  from ceil_div_bounds [OF npos, of S] have qb: "n * q < S + n"
    by (simp add: q_def)
  from ceil_div_nonneg [OF npos S] have q0: "0 \<le> q"
    by (simp add: q_def)
  have ps: "part_size S n P = P * (q div P)"
    by (simp add: part_size_def q_def)
  show ?thesis
  proof (cases "q < P")
    case True
    with q0 have "q div P = 0"
      by simp
    with ps S show ?thesis by simp
  next
    case False
    from int_div_mult_le [OF P, of q] ps have "part_size S n P \<le> q"
      by simp
    with n have "(n - 1) * part_size S n P \<le> (n - 1) * q"
      by (intro mult_left_mono) auto
    also have "(n - 1) * q = n * q - q"
      by (simp add: algebra_simps)
    also from qb False n have "n * q - q \<le> S"
      by linarith
    finally show ?thesis .
  qed
qed

lemma setOffs_for_cuts:
  "setOffs_for fl fsize n P partSz i fo buf = (0, fo') \<Longrightarrow> 2 \<le> n \<Longrightarrow> i \<le> n \<Longrightarrow>
   n * 3 \<le> length fo \<Longrightarrow> 0 < P \<Longrightarrow> 0 \<le> partSz \<Longrightarrow>
   (int n - 1) * partSz \<le> int (length fl) \<Longrightarrow> cuts fl partSz n fo i \<Longrightarrow>
   cuts fl partSz n fo' n"
proof (induction fl fsize n P partSz i fo buf rule: setOffs_for.induct)
  case (1 fl fsize n P partSz i fo buf)
  show ?case
  proof (cases "i < n")
    case False
    with "1.prems" show ?thesis
      by (simp add: setOffs_for_done)
  next
    case inb: True
    have inrange: "i * 3 + 2 < length fo"
      using inb "1.prems"(4) by simp
    show ?thesis
    proof (cases "i < n - 1")
      case mid: True
      define fo1 where "fo1 = (if i = 0 then fo[i * 3 := 0, i * 3 + 1 := 0] else next_offs fo i P)"
      from "1.prems"(1) inb mid obtain offset buf' where
        fsb: "find_seq_beg fl P partSz (fo1 ! (i * 3)) 0 0 buf = Some (offset, buf')"
        by (cases "find_seq_beg fl P partSz (fo1 ! (i * 3)) 0 0 buf")
           (auto simp: setOffs_for_none [OF inb mid fo1_def])
      define fo2 where "fo2 = fo1[i * 3 + 2 := partSz - offset - fo1 ! (i * 3 + 1)]"
      from "1.prems"(1) have nz: "fo2 ! (i * 3 + 2) \<noteq> 0"
        by (cases "fo2 ! (i * 3 + 2) = 0") (auto simp: setOffs_for_zero [OF inb mid fo1_def fsb fo2_def])
      from "1.prems"(1) have rec: "setOffs_for fl fsize n P partSz (i + 1) fo2 buf' = (0, fo')"
        by (simp add: setOffs_for_step [OF inb mid fo1_def fsb fo2_def nz])
      have len: "length fo2 = length fo"
        by (simp add: fo2_def fo1_def)
      have same: "\<And>j. j < i * 3 \<Longrightarrow> fo2 ! j = fo ! j"
        by (simp add: fo2_def fo1_def next_offs_nth_low)
      \<comment> \<open>the page offset of this partition and the end of its nominal window\<close>
      have offs: "0 \<le> fo1 ! (i * 3) \<and> fo1 ! (i * 3) \<le> int i * partSz"
      proof (cases "i = 0")
        case True
        moreover from inrange have "0 < length fo" "1 < length fo" by auto
        ultimately show ?thesis by (simp add: fo1_def)
      next
        case False
        then have im: "i - 1 < i" "i - 1 < n - 1" using mid by auto
        with "1.prems"(8) have pe: "0 \<le> part_end fo (i - 1)"
          "part_end fo (i - 1) < (int (i - 1) + 1) * partSz"
          by (auto simp: cuts_def)
        have "fo1 ! (i * 3) = P * (part_end fo (i - 1) div P)"
          using False inrange
          by (simp add: fo1_def next_offs_def Let_def part_end_def part_begin_def part_len_def)
        moreover have "P * (part_end fo (i - 1) div P) \<le> part_end fo (i - 1)"
          using "1.prems"(5) by (rule int_div_mult_le)
        moreover have "0 \<le> P * (part_end fo (i - 1) div P)"
          using "1.prems"(5) pe(1) by (simp add: pos_imp_zdiv_nonneg_iff)
        moreover from False have "int (i - 1) + 1 = int i" by simp
        ultimately show ?thesis using pe by simp
      qed
      have "(int i + 1) * partSz \<le> (int n - 1) * partSz"
        using mid "1.prems"(6) by (intro mult_right_mono) auto
      with offs "1.prems"(7) have wend: "fo1 ! (i * 3) + partSz \<le> int (length fl)"
        and wend': "fo1 ! (i * 3) + partSz \<le> (int i + 1) * partSz"
        by (simp_all add: algebra_simps)
      from find_seq_beg_sound [OF fsb "1.prems"(5)] wend
      have snd: "0 < offset" "offset \<le> fo1 ! (i * 3) + partSz"
        "fl ! nat (fo1 ! (i * 3) + partSz - offset) = gt"
        by simp_all
      have pe2: "part_end fo2 i = fo1 ! (i * 3) + partSz - offset"
        using inrange by (simp add: fo2_def fo1_def part_end_def part_begin_def part_len_def)
      have new: "0 \<le> part_end fo2 i \<and> part_end fo2 i < (int i + 1) * partSz
          \<and> fl ! nat (part_end fo2 i) = gt"
        using snd wend' pe2 by simp
      have "cuts fl partSz n fo2 (i + 1)"
        using cuts_extend [OF "1.prems"(8) same new] by simp
      with "1.IH"(1) [OF inb mid fo1_def fsb refl fo2_def nz rec "1.prems"(2)] inb len "1.prems"
      show ?thesis by simp
    next
      case last: False
      define fo1 where "fo1 = next_offs fo i P"
      define fo2 where "fo2 = fo1[i * 3 + 2 := fsize - (fo1 ! (i * 3) + fo1 ! (i * 3 + 1))]"
      from "1.prems"(1) have rec: "setOffs_for fl fsize n P partSz (i + 1) fo2 buf = (0, fo')"
        by (simp add: setOffs_for_last [OF inb last fo1_def fo2_def])
      have len: "length fo2 = length fo"
        by (simp add: fo2_def fo1_def)
      have same: "\<And>j. j < i * 3 \<Longrightarrow> fo2 ! j = fo ! j"
        by (simp add: fo2_def fo1_def next_offs_nth_low)
      have "cuts fl partSz n fo2 (i + 1)"
        using cuts_extend [OF "1.prems"(8) same] last by simp
      with "1.IH"(2) [OF inb last fo1_def fo2_def rec "1.prems"(2)] inb len "1.prems"
      show ?thesis by simp
    qed
  qed
qed

lemma setOffs_loop_cuts:
  "setOffs_loop fl P buf0 n0 n fo = (r, fo') \<Longrightarrow> 1 \<le> n \<Longrightarrow> n \<le> n0 \<Longrightarrow> 0 < P \<Longrightarrow>
   int n \<le> P + 1 \<Longrightarrow>
   r = 1 \<or> (\<exists>n'. r = int n' \<and> 2 \<le> n' \<and> cuts fl (part_size (int (length fl)) (int n') P) n' fo' n')"
proof (induction fl P buf0 n0 n fo arbitrary: r fo' rule: setOffs_loop.induct)
  case (1 fl P buf0 n0 n fo)
  show ?case
  proof (cases "n \<le> 1")
    case True
    with "1.prems"(1) show ?thesis
      by (simp add: setOffs_loop.simps [of fl P buf0 n0 n fo])
  next
    case False
    obtain err fo1 where q: "setOffsQueryFile (replicate (n0 * 3) 0) fl (int (length fl)) n P buf0 = (err, fo1)"
      by (cases "setOffsQueryFile (replicate (n0 * 3) 0) fl (int (length fl)) n P buf0")
    then have ret: "err = 0 \<or> err = 2"
      using setOffs_for_ret [of fl "int (length fl)" n P _ 0 "replicate (n0 * 3) 0" buf0 err fo1]
      by (simp add: setOffsQueryFile_def)
    show ?thesis
    proof (cases "err = 2")
      case True
      with False q "1.prems"(1) have rec: "setOffs_loop fl P buf0 n0 (n - 1) fo1 = (r, fo')"
        by (simp add: setOffs_loop.simps [of fl P buf0 n0 n fo])
      from False "1.prems" have "1 \<le> n - 1" "n - 1 \<le> n0" "int (n - 1) \<le> P + 1"
        by auto
      from "1.IH" [OF False q [symmetric] True rec this(1,2) "1.prems"(4) this(3)]
      show ?thesis .
    next
      case False2: False
      with ret have e0: "err = 0" by simp
      with False q "1.prems"(1) have res: "r = int n" "fo' = fo1"
        by (simp_all add: setOffs_loop.simps [of fl P buf0 n0 n fo])
      define partSz where "partSz = part_size (int (length fl)) (int n) P"
      from q e0 have run: "setOffs_for fl (int (length fl)) n P partSz 0 (replicate (n0 * 3) 0) buf0 = (0, fo1)"
        by (simp add: setOffsQueryFile_def partSz_def)
      from False have n2: "2 \<le> n" by simp
      have "cuts fl partSz n fo1 n"
      proof (rule setOffs_for_cuts [OF run n2])
        show "0 \<le> n" by simp
        show "n * 3 \<le> length (replicate (n0 * 3) (0::int))" using "1.prems" by simp
        show "0 < P" by fact
        show "0 \<le> partSz" using "1.prems" n2 by (simp add: partSz_def part_size_nonneg)
        show "(int n - 1) * partSz \<le> int (length fl)"
          unfolding partSz_def using "1.prems" n2 by (intro workers_bound) auto
        show "cuts fl partSz n (replicate (n0 * 3) 0) 0" by (simp add: cuts_def)
      qed
      with res n2 show ?thesis
        by (intro disjI2 exI [of _ n]) (simp add: partSz_def)
    qed
  qed
qed

lemma gt_at_line_starts_nth:
  "gt_at_line_starts fl \<Longrightarrow> g < length fl \<Longrightarrow> fl ! g = gt \<Longrightarrow> spec_record_start fl g"
  by (auto simp: gt_at_line_starts_def spec_record_start_def list_all_iff)

text \<open>
  What the partitioner does achieve: every entry \<open>i > 0\<close> of a plan starts where the
  entry before it ends, at a byte of the file that is \<open>>\<close>; that \<open>>\<close> begins a record
  when every \<open>>\<close> of the file stands at the start of a line. This is shown here for
  plans of at most one more processes than a page has bytes, the case that the
  estimate \<open>workers_bound\<close> covers.
\<close>

lemma partitions_start_at_gt:
  assumes "0 < P" and "1 \<le> N" and "int N \<le> P + 1"
    and "setOffs fl P buf0 N = (int N', fo)" and "0 < i" and "i < N'"
  shows "part_begin fo i = part_end fo (i - 1)
         \<and> 0 \<le> part_begin fo i \<and> nat (part_begin fo i) < length fl
         \<and> fl ! nat (part_begin fo i) = gt
         \<and> (gt_at_line_starts fl \<longrightarrow> spec_record_start fl (nat (part_begin fo i)))"
proof -
  from assms(5,6) have N'2: "2 \<le> N'" by simp
  from setOffs_plan [OF assms(2,4)]
  have ch: "chain fo N'" and le: "N' \<le> N"
    by auto
  from N'2 assms(4) have N1: "N \<noteq> 1"
    by (auto simp: setOffs_def)
  with assms(4) have "setOffs_loop fl P buf0 N N (replicate (N * 3) 0) = (int N', fo)"
    by (simp add: setOffs_def)
  from setOffs_loop_cuts [OF this assms(2) le_refl assms(1,3)] N'2
  have cs: "cuts fl (part_size (int (length fl)) (int N') P) N' fo N'"
    by auto
  define partSz where "partSz = part_size (int (length fl)) (int N') P"
  from assms(5,6) have k: "i - 1 < N'" "i - 1 < N' - 1" by auto
  with cs have pe: "0 \<le> part_end fo (i - 1)" "part_end fo (i - 1) < (int (i - 1) + 1) * partSz"
    "fl ! nat (part_end fo (i - 1)) = gt"
    by (auto simp: cuts_def partSz_def)
  have p0: "0 \<le> partSz"
    using assms(1) N'2 by (simp add: partSz_def part_size_nonneg)
  from le assms(3) have "int N' \<le> P + 1"
    by simp
  with assms(1) N'2 have wb: "(int N' - 1) * partSz \<le> int (length fl)"
    unfolding partSz_def by (intro workers_bound) auto
  from k p0 have "(int (i - 1) + 1) * partSz \<le> (int N' - 1) * partSz"
    by (intro mult_right_mono) auto
  with pe wb have inb: "part_end fo (i - 1) < int (length fl)"
    by simp
  from ch assms(5,6) have eq: "part_begin fo i = part_end fo (i - 1)"
    by (simp add: chain_def)
  from pe inb have "nat (part_end fo (i - 1)) < length fl"
    by simp
  with eq pe gt_at_line_starts_nth [of fl "nat (part_end fo (i - 1))"] show ?thesis
    by simp
qed

section \<open>C8: the windows and the carry buffer\<close>






section \<open>C9: filter lengths together with a lookup source\<close>

text \<open>
  The check of the modes after the option loop, and the two later checks, which keep
  an error.
\<close>

lemma check_query_ERROR: "check_query a ERROR = ERROR"
  by (simp add: check_query_def Let_def)

lemma check_pipe_ERROR: "check_pipe a ERROR = ERROR"
  by (simp add: check_pipe_def Let_def)

lemma parseCmdline_modes:
  assumes "pipeMode (snd (parseCmdline opts)) \<noteq> 0" "searchMode (snd (parseCmdline opts)) \<noteq> 0"
  shows "fst (parseCmdline opts) = ERROR"
  using assms
  by (auto simp: parseCmdline_def check_modes_def check_query_ERROR check_pipe_ERROR split: prod.splits)

lemma extract_step_lookup_ignores_lengths:
  assumes "hPipeMode h \<noteq> 0 \<or> hSearchMode h \<noteq> 0"
  shows "extract_step (a\<lparr>rseqLen := r, seqLen := l, seqLenBuf := n, rseqLenBuf := k\<rparr>) h np s
         = extract_step a h np s"
  using assms
  by (auto simp: extract_step_def extract_record_def write_selected_def Let_def lookup_mode_def
      split: option.splits prod.splits)

lemma extractQueries_lookup_ignores_lengths:
  "hPipeMode h \<noteq> 0 \<or> hSearchMode h \<noteq> 0 \<Longrightarrow>
   extractQueries (a\<lparr>rseqLen := r, seqLen := l, seqLenBuf := n, rseqLenBuf := k\<rparr>) h np s
     = extractQueries a h np s"
proof (induction a h np s rule: extractQueries.induct)
  case (1 a h np s)
  let ?a' = "a\<lparr>rseqLen := r, seqLen := l, seqLenBuf := n, rseqLenBuf := k\<rparr>"
  have step: "extract_step ?a' h np s = extract_step a h np s"
    by (rule extract_step_lookup_ignores_lengths) (rule "1.prems")
  show ?case
  proof (cases "extract_step a h np s")
    case (Continue s')
    from "1.IH" [OF Continue "1.prems"] Continue step show ?thesis
      by (simp add: extractQueries.simps [of ?a' h np s] extractQueries.simps [of a h np s])
  next
    case (Break s')
    with step show ?thesis
      by (simp add: extractQueries.simps [of ?a' h np s] extractQueries.simps [of a h np s])
  qed
qed

lemma extract_region_lookup_ignores_lengths:
  assumes "hPipeMode h \<noteq> 0 \<or> hSearchMode h \<noteq> 0"
  shows "extract_region (a\<lparr>rseqLen := r, seqLen := l, seqLenBuf := n, rseqLenBuf := k\<rparr>) h np m f s
     = extract_region a h np m f s"
  by (simp add: extract_region_def extractQueries_lookup_ignores_lengths [OF assms])

lemma partQueryFile_body_lookup_ignores_lengths:
  assumes "hPipeMode h \<noteq> 0 \<or> hSearchMode h \<noteq> 0"
  shows "partQueryFile_body (a\<lparr>rseqLen := r, seqLen := l, seqLenBuf := n, rseqLenBuf := k\<rparr>) h np
       fl fo rank psz qfsz msz nmaps nmap bs
     = partQueryFile_body a h np fl fo rank psz qfsz msz nmaps nmap bs"
  by (simp add: partQueryFile_body_def extract_region_lookup_ignores_lengths [OF assms]
      cong: option.case_cong prod.case_cong if_cong)

lemma partQueryFile_loop_lookup_ignores_lengths:
  "hPipeMode h \<noteq> 0 \<or> hSearchMode h \<noteq> 0 \<Longrightarrow>
   partQueryFile_loop (a\<lparr>rseqLen := r, seqLen := l, seqLenBuf := n, rseqLenBuf := k\<rparr>) h np
       fl fo rank psz qfsz msz nmaps nmap bs
     = partQueryFile_loop a h np fl fo rank psz qfsz msz nmaps nmap bs"
proof (induction a h np fl fo rank psz qfsz msz nmaps nmap bs rule: partQueryFile_loop.induct)
  case (1 a h np fl fo rank psz qfsz msz nmaps nmap bs)
  let ?a' = "a\<lparr>rseqLen := r, seqLen := l, seqLenBuf := n, rseqLenBuf := k\<rparr>"
  note body = partQueryFile_body_lookup_ignores_lengths [OF "1.prems"]
  show ?case
  proof (cases "nmap < nmaps \<and> \<not> doneFlag (snd bs)")
    case True
    show ?thesis
    proof (cases "partQueryFile_body a h np fl fo rank psz qfsz msz nmaps nmap bs")
      case (Inl s')
      with True body show ?thesis
        by (simp add: partQueryFile_loop_error)
    next
      case (Inr bs')
      from "1.IH" [OF True Inr "1.prems"] True Inr body show ?thesis
        by (simp add: partQueryFile_loop_step)
    qed
  next
    case False
    show ?thesis
      by (simp only: partQueryFile_loop_stop [OF False])
  qed
qed

text \<open>
  C9, as the claim states it, fails: an exact length together with a search file is
  not a configuration error. \<^verbatim>\<open>parseCmdline\<close> returns 0 for \<^verbatim>\<open>-q in.fa -l 6 -s ids.txt\<close>,
  and the run then looks the IDs up: with the hit ID \<open>r1\<close> it writes \<open>r1\<close>, whose
  sequence length is 4 and not 6.
\<close>

theorem C9_length_with_search_is_accepted:
  "fst (parseCmdline opts_length_and_search) = 0
   \<and> seqLenBuf (snd (parseCmdline opts_length_and_search)) = 1
   \<and> searchMode (snd (parseCmdline opts_length_and_search)) = 1
   \<and> out (snd (partQueryFile IMAP_LIMIT PAGE_SIZE (snd (parseCmdline opts_length_and_search))
               (hits_of (snd (parseCmdline opts_length_and_search)) [''r1'']) 1 0
               fasta_r1r2 (plan1 (length fasta_r1r2)))) = fasta_r1"
  by code_simp

text \<open>
  C9 (amended). What the code detects before the scan is the pipeline mode together
  with the search mode: \<^verbatim>\<open>parseCmdline\<close> then returns \<^verbatim>\<open>ERROR\<close>. Exact lengths and
  ranges that are configured together with a lookup source are ignored, as the manual
  page says: in pipeline or search mode the whole scan is the same whatever lengths
  and ranges the arguments hold, so the lookup predicate alone is active.
\<close>

theorem C9_modes_exclusive_lengths_ignored:
  "(pipeMode (snd (parseCmdline opts)) \<noteq> 0 \<and> searchMode (snd (parseCmdline opts)) \<noteq> 0
      \<longrightarrow> fst (parseCmdline opts) = ERROR)
   \<and> (hPipeMode h \<noteq> 0 \<or> hSearchMode h \<noteq> 0
      \<longrightarrow> partQueryFile imapLimit psz (a\<lparr>rseqLen := r, seqLen := l, seqLenBuf := n, rseqLenBuf := k\<rparr>)
            h np rank fl fo
          = partQueryFile imapLimit psz a h np rank fl fo)"
  by (simp add: parseCmdline_modes partQueryFile_def partQueryFile_loop_lookup_ignores_lengths)

theorem C9_modes_exclusive_lengths_ignored_witness:
  "pipeMode (snd (parseCmdline opts_pipe_and_search)) \<noteq> 0
   \<and> searchMode (snd (parseCmdline opts_pipe_and_search)) \<noteq> 0
   \<and> fst (parseCmdline opts_pipe_and_search) = ERROR
   \<and> hSearchMode (hits_of (snd (parseCmdline opts_length_and_search)) [''r1'']) \<noteq> 0
   \<and> partQueryFile IMAP_LIMIT PAGE_SIZE
        ((snd (parseCmdline opts_length_and_search))\<lparr>rseqLen := replicate 10 0, seqLen := replicate 5 0,
           seqLenBuf := 0, rseqLenBuf := 0\<rparr>)
        (hits_of (snd (parseCmdline opts_length_and_search)) [''r1'']) 1 0 fasta_r1r2 (plan1 (length fasta_r1r2))
      = partQueryFile IMAP_LIMIT PAGE_SIZE (snd (parseCmdline opts_length_and_search))
        (hits_of (snd (parseCmdline opts_length_and_search)) [''r1'']) 1 0 fasta_r1r2 (plan1 (length fasta_r1r2))"
proof -
  have p: "pipeMode (snd (parseCmdline opts_pipe_and_search)) \<noteq> 0"
    by code_simp
  have s: "searchMode (snd (parseCmdline opts_pipe_and_search)) \<noteq> 0"
    by code_simp
  have m: "hSearchMode (hits_of (snd (parseCmdline opts_length_and_search)) [''r1'']) \<noteq> 0"
    by code_simp
  from p s m
    C9_modes_exclusive_lengths_ignored [where opts = opts_pipe_and_search
      and h = "hits_of (snd (parseCmdline opts_length_and_search)) [''r1'']"
      and imapLimit = IMAP_LIMIT and psz = PAGE_SIZE
      and a = "snd (parseCmdline opts_length_and_search)"
      and r = "replicate 10 0" and l = "replicate 5 0" and n = 0 and k = 0 and np = 1 and rank = 0
      and fl = fasta_r1r2 and fo = "plan1 (length fasta_r1r2)"]
  show ?thesis
    by blast
qed

section \<open>C10: the quota of hits in a run of one worker\<close>

text \<open>The quota is kept by every pass of the loop, hence by the whole scan.\<close>

lemma extract_step_quota:
  assumes "extract_step a h np s = r" "r = Continue s' \<or> r = Break s'" "quota h np s"
  shows "quota h np s'"
  using assms(1)
proof (cases rule: extract_step_cases)
  case quota_seq
  with assms show ?thesis by (auto simp: quota_def)
next
  case quota_hits
  with assms show ?thesis by (auto simp: quota_def)
next
  case parsed
  from parsed(1) show ?thesis
  proof (cases rule: extract_record_cases)
    case (parse_error s1)
    with assms show ?thesis by (auto simp: quota_def same_counters_def)
  next
    case (skipped s1)
    with assms show ?thesis by (auto simp: quota_def same_counters_def)
  next
    case (selected s2 annotSz rawSeqSz)
    from write_selected_xCnt [OF selected(1) [symmetric] assms(2)] selected(5) assms(3) parsed(3)
    show ?thesis
      by (auto simp: quota_def same_counters_def)
  qed
qed

lemma partQueryFile_quota:
  "quota h np (snd (partQueryFile imapLimit psz a h np rank fl fo))"
proof (rule partQueryFile_inv [where I = "quota h np"])
  fix s s' assume "quota h np s" "extract_step a h np s = Continue s'"
  then show "quota h np s'"
    by (intro extract_step_quota [of a h np s "Continue s'" s']) auto
next
  fix s s' assume "quota h np s" "extract_step a h np s = Break s'"
  then show "quota h np s'"
    by (intro extract_step_quota [of a h np s "Break s'" s']) auto
next
  fix s m f assume "quota h np s"
  then show "quota h np (s\<lparr>mem := m, fptr := f, iaq := 0, faq := 0, isq := 0, fsq := 0\<rparr>)"
    by (simp add: quota_def)
next
  show "quota h np (scan_init h)"
    by (simp add: quota_def scan_init_def)
qed

lemma extractQueries_quota_reached:
  assumes "np = 1" "lookup_mode h" "xCnt s = int (htotal h)"
  shows "extractQueries a h np s = s\<lparr>doneFlag := True\<rparr>"
proof -
  from assms have "extract_step a h np s = Break (s\<lparr>doneFlag := True\<rparr>)"
    by (simp add: extract_step_def)
  then show ?thesis
    by (simp add: extractQueries.simps [of a h np s])
qed

text \<open>
  C10. In a run of one worker that looks hit IDs up (pipeline or search mode), as soon
  as the number of extracted records equals \<^verbatim>\<open>htotal\<close>, the number of hit IDs in the
  list, the scan of the region sets the done flag and stops, and the loop over the
  windows stops with it; so at the end of the run at most \<^verbatim>\<open>htotal\<close> records were
  extracted. In the example two records match the hit ID \<open>h1\<close>: they use up the quota
  of the two hit IDs, and the record of \<open>h2\<close>, which comes later in the file, is not
  extracted.
\<close>

theorem C10_hit_quota_stops_the_scan:
  "(np = 1 \<and> lookup_mode h \<and> xCnt s0 = int (htotal h) \<longrightarrow>
      extractQueries a h np s0 = s0\<lparr>doneFlag := True\<rparr>
      \<and> partQueryFile_loop a h np fl fo rank psz qfsz msz nmaps nmap (buf, s0\<lparr>doneFlag := True\<rparr>)
          = (0, s0\<lparr>doneFlag := True\<rparr>))
   \<and> (np = 1 \<and> lookup_mode h \<and> partQueryFile imapLimit psz a h np rank fl fo = (err, s) \<longrightarrow>
        xCnt s \<le> int (htotal h))"
  using extractQueries_quota_reached [of np h s0 a]
    partQueryFile_loop_stop [of nmap nmaps "(buf, s0\<lparr>doneFlag := True\<rparr>)" a h np fl fo rank psz qfsz msz]
    partQueryFile_quota [of h np imapLimit psz a rank fl fo]
  by (auto simp: quota_def)

theorem C10_hit_quota_stops_the_scan_witness:
  "lookup_mode hits_h12 \<and> xCnt scan_two_h1 = int (htotal hits_h12)
   \<and> extractQueries args_default hits_h12 1 scan_two_h1 = scan_two_h1\<lparr>doneFlag := True\<rparr>
   \<and> partQueryFile IMAP_LIMIT PAGE_SIZE args_default hits_h12 1 0 fasta_h1h1h2
        (plan1 (length fasta_h1h1h2)) = (0, scan_two_h1\<lparr>doneFlag := True\<rparr>)
   \<and> out (scan_two_h1\<lparr>doneFlag := True\<rparr>) = fasta_h1a @ fasta_h1b
   \<and> xCnt (scan_two_h1\<lparr>doneFlag := True\<rparr>) \<le> int (htotal hits_h12)"
proof -
  have lk: "lookup_mode hits_h12"
    by code_simp
  have x: "xCnt scan_two_h1 = int (htotal hits_h12)"
    by code_simp
  have run: "partQueryFile IMAP_LIMIT PAGE_SIZE args_default hits_h12 1 0 fasta_h1h1h2
        (plan1 (length fasta_h1h1h2)) = (0, scan_two_h1\<lparr>doneFlag := True\<rparr>)"
    by code_simp
  have o: "out (scan_two_h1\<lparr>doneFlag := True\<rparr>) = fasta_h1a @ fasta_h1b"
    by (simp add: scan_two_h1_def)
  from C10_hit_quota_stops_the_scan [where np = 1 and h = hits_h12 and ?s0.0 = scan_two_h1
      and a = args_default and imapLimit = IMAP_LIMIT and psz = PAGE_SIZE and rank = 0
      and fl = fasta_h1h1h2 and fo = "plan1 (length fasta_h1h1h2)" and err = 0
      and s = "scan_two_h1\<lparr>doneFlag := True\<rparr>"]
    lk x run
  have "extractQueries args_default hits_h12 1 scan_two_h1 = scan_two_h1\<lparr>doneFlag := True\<rparr>
     \<and> xCnt (scan_two_h1\<lparr>doneFlag := True\<rparr>) \<le> int (htotal hits_h12)"
    by blast
  with lk x run o show ?thesis
    by blast
qed

end

